theory Spec2Isabelle
  imports Main "HOL-Library.Sublist"
begin

section \<open>ddu-source-tri\_source: buffer list, MRU list and recursive file walk\<close>

text \<open>
  A shallow embedding of \<^verbatim>\<open>denops/@ddu-sources/tri_source.ts\<close>.  The functions of the
  source keep their names.  What the source obtains from outside (the editor through
  denops, the file system through Deno, the path library) is a record of functions that
  the model takes as an argument; every exception of the source is a value.
\<close>

subsection \<open>Thrown values\<close>

text \<open>
  The source tests thrown values in three ways: \<^verbatim>\<open>e instanceof DOMException\<close>,
  \<^verbatim>\<open>e instanceof Deno.errors.PermissionDenied\<close> and
  \<^verbatim>\<open>e instanceof Error && e.name.includes("AbortReason")\<close>.  A thrown value is
  therefore an \<^verbatim>\<open>Error\<close> with its name, a \<^verbatim>\<open>DOMException\<close> with its name (it is an
  \<^verbatim>\<open>Error\<close> too), Deno's \<^verbatim>\<open>PermissionDenied\<close>, or a value that is no \<^verbatim>\<open>Error\<close>.
\<close>

datatype js_exn =
    Error string
  | DOMException string
  | PermissionDenied
  | NonError

fun instanceofError :: "js_exn \<Rightarrow> bool" where
  "instanceofError NonError = False"
| "instanceofError _ = True"

fun instanceofDOMException :: "js_exn \<Rightarrow> bool" where
  "instanceofDOMException (DOMException _) = True"
| "instanceofDOMException _ = False"

fun exn_name :: "js_exn \<Rightarrow> string" where
  "exn_name (Error n) = n"
| "exn_name (DOMException n) = n"
| "exn_name PermissionDenied = ''PermissionDenied''"
| "exn_name NonError = ''''"

subsection \<open>Strings\<close>

text \<open>\<^verbatim>\<open>String.prototype.startsWith\<close> and \<^verbatim>\<open>String.prototype.includes\<close>.\<close>

fun startsWith :: "string \<Rightarrow> string \<Rightarrow> bool" where
  "startsWith s [] = True"
| "startsWith [] (c # cs) = False"
| "startsWith (d # ds) (c # cs) = (d = c \<and> startsWith ds cs)"

fun str_includes :: "string \<Rightarrow> string \<Rightarrow> bool" where
  "str_includes [] sub = (sub = [])"
| "str_includes (c # cs) sub = (startsWith (c # cs) sub \<or> str_includes cs sub)"

text \<open>\<^verbatim>\<open>s.padStart(2, " ")\<close>.\<close>

definition padStart2 :: "string \<Rightarrow> string" where
  "padStart2 s = replicate (2 - length s) (CHR '' '') @ s"

text \<open>\<^verbatim>\<open>String(n)\<close> for a buffer number.\<close>

fun string_of_nat :: "nat \<Rightarrow> string" where
  "string_of_nat n =
     (if n < 10 then [''0123456789'' ! n]
      else string_of_nat (n div 10) @ [''0123456789'' ! (n mod 10)])"

subsection \<open>Types\<close>

datatype TreePath = PathString string | PathList "string list"

record Params =
  enableBuffer :: bool
  enableMr :: bool
  enableFileRec :: bool
  ignoredDirectories :: "string list"
  chunkSize :: int
  expandSymbolicLink :: bool
  mrKind :: string
  bufferOrderby :: string
  dedup :: bool
  showSourcePrefix :: bool

record BufInfo =
  bufnr :: nat
  changed :: bool
  lastused :: int
  listed :: bool
  name :: string

record GetBufInfoReturn =
  currentDir :: string
  alternateBufNr :: nat
  buffers :: "BufInfo list"

record ItemHighlight =
  hl_name :: string
  hl_group :: string
  col :: nat
  width :: nat

record ActionData =
  path :: string
  isDirectory :: bool

record Item =
  word :: string
  display :: "string option"
  highlights :: "ItemHighlight list option"
  action :: ActionData

text \<open>The fields of \<^verbatim>\<open>Deno.FileInfo\<close> and \<^verbatim>\<open>Deno.DirEntry\<close> that the source reads.\<close>

record FileInfo =
  fi_isDirectory :: bool
  fi_isSymlink :: bool

record DirEntry =
  entry_name :: string

text \<open>A value that an external call may return.\<close>

datatype js_value =
    JString string
  | JNumber int
  | JBool bool
  | JNull
  | JArray "js_value list"

text \<open>
  How the promise of \<^verbatim>\<open>denops.dispatch\<close> settles: resolved, rejected, or still pending
  when the deadline of 1000 ms passes.
\<close>

datatype dispatch_outcome = Resolved js_value | Rejected js_exn | Pending

text \<open>
  The editor as seen through denops: the result of
  \<^verbatim>\<open>ddu#source#tri_source#getbufinfo\<close>, the value of \<^verbatim>\<open>getbufvar(bufnr, "&buftype")\<close>,
  and \<^verbatim>\<open>dispatch(plugin, method)\<close>.
\<close>

record Denops =
  getbufinfo :: "js_exn + GetBufInfoReturn"
  getbufvar_buftype :: "nat \<Rightarrow> js_exn + js_value"
  dispatch :: "string \<Rightarrow> string \<Rightarrow> dispatch_outcome"

text \<open>
  Deno's file system and the functions of \<^verbatim>\<open>@std/path\<close>.  \<open>readDir\<close> gives the entries
  that the directory iterator yields and then the error it throws, if any (an error on
  opening the directory is an empty list with an error).
\<close>

record Platform =
  readDir :: "string \<Rightarrow> DirEntry list \<times> js_exn option"
  lstat :: "string \<Rightarrow> js_exn + FileInfo"
  stat :: "string \<Rightarrow> js_exn + FileInfo"
  realPath :: "string \<Rightarrow> js_exn + string"
  pathsep :: string
  path_join :: "string \<Rightarrow> string \<Rightarrow> string"
  path_resolve :: "string \<Rightarrow> string \<Rightarrow> string"
  path_relative :: "string \<Rightarrow> string \<Rightarrow> string"

record Context =
  bufNr :: nat
  ctx_path :: TreePath

record GatherArguments =
  gather_context :: Context
  sourceOptions_path :: TreePath
  sourceParams :: Params

subsection \<open>Helpers\<close>

fun intercalate :: "string \<Rightarrow> string list \<Rightarrow> string" where
  "intercalate sep [] = []"
| "intercalate sep [x] = x"
| "intercalate sep (x # y # ys) = x @ sep @ intercalate sep (y # ys)"

fun treePath2Filename :: "Platform \<Rightarrow> TreePath \<Rightarrow> string" where
  "treePath2Filename pf (PathString s) = s"
| "treePath2Filename pf (PathList ss) = intercalate (pathsep pf) ss"

fun treePath_length :: "TreePath \<Rightarrow> nat" where
  "treePath_length (PathString s) = length s"
| "treePath_length (PathList ss) = length ss"

definition makeItem :: "string \<Rightarrow> string \<Rightarrow> string \<Rightarrow> bool \<Rightarrow> bool \<Rightarrow> Item" where
  "makeItem w p tag showPrefix isDir =
     (let prefix = ''['' @ tag @ ''] '' in
      \<lparr> word = w,
        display = (if showPrefix then Some (prefix @ w) else None),
        highlights =
          (if showPrefix
           then Some [\<lparr> hl_name = ''ddu_tri_source_'' @ tag,
                        hl_group = ''DduTriSource_'' @ tag,
                        col = 1,
                        width = length prefix \<rparr>]
           else None),
        action = \<lparr> path = p, isDirectory = isDir \<rparr> \<rparr>)"

text \<open>\<^verbatim>\<open>p.replace(/\/+$/, "")\<close>: the slashes at the end of the string are removed.\<close>

definition normalizePath :: "string \<Rightarrow> string" where
  "normalizePath p = rev (dropWhile (\<lambda>c. c = CHR ''/'') (rev p))"

text \<open>The key under which an item takes part in deduplication.\<close>

definition DedupKey :: "Item \<Rightarrow> string" where
  "DedupKey i = normalizePath (path (action i))"

subsection \<open>Sub-source: buffer\<close>

text \<open>
  \<^verbatim>\<open>Array.prototype.sort\<close> is stable; it is modelled as a stable insertion sort with the
  comparator of the source.
\<close>

fun sort_insert :: "('a \<Rightarrow> 'a \<Rightarrow> int) \<Rightarrow> 'a \<Rightarrow> 'a list \<Rightarrow> 'a list" where
  "sort_insert cmp x [] = [x]"
| "sort_insert cmp x (y # ys) =
     (if cmp x y \<le> 0 then x # y # ys else y # sort_insert cmp x ys)"

definition js_sort :: "('a \<Rightarrow> 'a \<Rightarrow> int) \<Rightarrow> 'a list \<Rightarrow> 'a list" where
  "js_sort cmp xs = foldr (sort_insert cmp) xs []"

definition buffer_cmp :: "string \<Rightarrow> nat \<Rightarrow> BufInfo \<Rightarrow> BufInfo \<Rightarrow> int" where
  "buffer_cmp orderby bn a b =
     (if orderby = ''desc'' then
        (if bufnr a = bn then 1
         else if bufnr b = bn then - 1
         else lastused b - lastused a)
      else lastused a - lastused b)"

definition buffer_word :: "Platform \<Rightarrow> string \<Rightarrow> nat \<Rightarrow> nat \<Rightarrow> BufInfo \<Rightarrow> string" where
  "buffer_word pf curDir bn altNr buf =
     (let curMarker = (if bn = bufnr buf then ''%'' else '''');
          altMarker = (if altNr = bufnr buf then ''#'' else '''');
          modMarker = (if changed buf then ''+'' else '' '');
          bufnrStr = padStart2 (string_of_nat (bufnr buf));
          bufMark = padStart2 (curMarker @ altMarker);
          relPath = path_relative pf curDir (name buf);
          displayName = (if startsWith relPath ''..'' then name buf else relPath)
      in bufnrStr @ '' '' @ bufMark @ '' '' @ modMarker @ '' '' @ displayName)"

text \<open>
  The loop over the sorted buffers.  The result is the exception thrown by
  \<^verbatim>\<open>getbufvar\<close>, if any, or the items, and the set \<open>seen\<close> as the loop leaves it.
\<close>

fun gatherBuffer_loop ::
  "Denops \<Rightarrow> Platform \<Rightarrow> string \<Rightarrow> nat \<Rightarrow> nat \<Rightarrow> bool \<Rightarrow> bool \<Rightarrow>
   BufInfo list \<Rightarrow> string set \<Rightarrow> Item list \<Rightarrow> (js_exn + Item list) \<times> string set" where
  "gatherBuffer_loop dn pf curDir bn altNr dd showPrefix [] seen items = (Inr items, seen)"
| "gatherBuffer_loop dn pf curDir bn altNr dd showPrefix (buf # rest) seen items =
     (if name buf = '''' then
        gatherBuffer_loop dn pf curDir bn altNr dd showPrefix rest seen items
      else
        (case getbufvar_buftype dn (bufnr buf) of
           Inl e \<Rightarrow> (Inl e, seen)
         | Inr uBufType \<Rightarrow>
             (if (case uBufType of JString s \<Rightarrow> s | _ \<Rightarrow> '''') = ''terminal'' then
                gatherBuffer_loop dn pf curDir bn altNr dd showPrefix rest seen items
              else if dd \<and> normalizePath (name buf) \<in> seen then
                gatherBuffer_loop dn pf curDir bn altNr dd showPrefix rest seen items
              else
                gatherBuffer_loop dn pf curDir bn altNr dd showPrefix rest
                  (if dd then insert (normalizePath (name buf)) seen else seen)
                  (items @ [makeItem (buffer_word pf curDir bn altNr buf) (name buf)
                              ''buf'' showPrefix False]))))"

definition gatherBuffer ::
  "Denops \<Rightarrow> Platform \<Rightarrow> nat \<Rightarrow> string \<Rightarrow> string set \<Rightarrow> bool \<Rightarrow> bool \<Rightarrow>
   (js_exn + Item list) \<times> string set" where
  "gatherBuffer dn pf bn orderby seen dd showPrefix =
     (case getbufinfo dn of
        Inl e \<Rightarrow> (Inl e, seen)
      | Inr info \<Rightarrow>
          gatherBuffer_loop dn pf (currentDir info) bn (alternateBufNr info) dd showPrefix
            (js_sort (buffer_cmp orderby bn) (filter listed (buffers info))) seen [])"

subsection \<open>Sub-source: MRU\<close>

datatype log_entry =
    MrCallFailed
  | MrError js_exn
  | GatherError js_exn

text \<open>
  \<^verbatim>\<open>deadline(p, 1000)\<close> gives the value of the promise, throws what the promise rejects
  with, or throws its timeout exception (a \<^verbatim>\<open>DOMException\<close> named \<^verbatim>\<open>TimeoutError\<close>).
\<close>

fun deadline :: "dispatch_outcome \<Rightarrow> js_exn + js_value" where
  "deadline (Resolved v) = Inr v"
| "deadline (Rejected e) = Inl e"
| "deadline Pending = Inl (DOMException ''TimeoutError'')"

text \<open>\<^verbatim>\<open>ensure(x, is.ArrayOf(is.String))\<close> throws an \<^verbatim>\<open>AssertError\<close> unless \<open>x\<close> is an array of strings.\<close>

fun the_strings :: "js_value list \<Rightarrow> string list option" where
  "the_strings [] = Some []"
| "the_strings (JString s # vs) = map_option ((#) s) (the_strings vs)"
| "the_strings (_ # vs) = None"

fun ensure_ArrayOf_String :: "js_value \<Rightarrow> js_exn + string list" where
  "ensure_ArrayOf_String (JArray vs) =
     (case the_strings vs of Some ss \<Rightarrow> Inr ss | None \<Rightarrow> Inl (Error ''AssertError''))"
| "ensure_ArrayOf_String _ = Inl (Error ''AssertError'')"

fun gatherMr_loop ::
  "string \<Rightarrow> bool \<Rightarrow> bool \<Rightarrow> string list \<Rightarrow> string set \<Rightarrow> Item list \<Rightarrow> Item list \<times> string set" where
  "gatherMr_loop kind dd showPrefix [] seen items = (items, seen)"
| "gatherMr_loop kind dd showPrefix (p # rest) seen items =
     (if dd \<and> normalizePath p \<in> seen then
        gatherMr_loop kind dd showPrefix rest seen items
      else
        gatherMr_loop kind dd showPrefix rest
          (if dd then insert (normalizePath p) seen else seen)
          (items @ [makeItem p p kind showPrefix (kind \<in> {''mrr'', ''mrd''})]))"

text \<open>The \<^verbatim>\<open>try\<close> block of \<^verbatim>\<open>gatherMr\<close> and the message of its \<^verbatim>\<open>catch\<close> clause.\<close>

definition mr_call :: "Denops \<Rightarrow> string \<Rightarrow> js_exn + string list" where
  "mr_call dn kind =
     (case deadline (dispatch dn ''mr'' (kind @ '':list'')) of
        Inl e \<Rightarrow> Inl e
      | Inr v \<Rightarrow> ensure_ArrayOf_String v)"

definition mr_diagnostic :: "js_exn \<Rightarrow> log_entry" where
  "mr_diagnostic e = (if instanceofDOMException e then MrCallFailed else MrError e)"

text \<open>The items, the set \<open>seen\<close> afterwards, and what the call wrote with \<^verbatim>\<open>console.error\<close>.\<close>

definition gatherMr ::
  "Denops \<Rightarrow> string \<Rightarrow> string set \<Rightarrow> bool \<Rightarrow> bool \<Rightarrow> Item list \<times> string set \<times> log_entry list" where
  "gatherMr dn kind seen dd showPrefix =
     (case mr_call dn kind of
        Inl e \<Rightarrow> ([], seen, [mr_diagnostic e])
      | Inr result \<Rightarrow>
          (case gatherMr_loop kind dd showPrefix result seen [] of
             (items, seen') \<Rightarrow> (items, seen', [])))"

subsection \<open>Sub-source: recursive file walk\<close>

text \<open>
  The consumer's \<^verbatim>\<open>cancel(reason)\<close> aborts the signal.  The walk observes the signal
  where it asks the directory iterator for its next entry (\<^verbatim>\<open>abortable\<close>), so the
  moment of the cancellation is the number of such reads that settled before it:
  \<open>Some (t, r)\<close> is a cancellation with \<^verbatim>\<open>signal.reason\<close> \<open>r\<close> after \<open>t\<close> reads,
  \<open>None\<close> is a run that is never cancelled.
\<close>

type_synonym AbortSignal = "(nat \<times> js_exn) option"

fun aborted :: "AbortSignal \<Rightarrow> nat \<Rightarrow> js_exn option" where
  "aborted None clk = None"
| "aborted (Some (t, r)) clk = (if t \<le> clk then Some r else None)"

definition readStat :: "Platform \<Rightarrow> string \<Rightarrow> bool \<Rightarrow> FileInfo option" where
  "readStat pf p expand =
     (case lstat pf p of
        Inl e \<Rightarrow> None
      | Inr st \<Rightarrow>
          (if fi_isSymlink st \<and> expand then
             (case stat pf p of
                Inl e \<Rightarrow> None
              | Inr st' \<Rightarrow> Some (st'\<lparr> fi_isSymlink := True \<rparr>))
           else Some st))"

record walk_args =
  wa_root :: string
  wa_ignoredDirectories :: "string list"
  wa_signal :: AbortSignal
  wa_chunkSize :: int
  wa_expandSymbolicLink :: bool

text \<open>
  What a generator did: the chunks it yielded, the exception it threw (\<open>None\<close> when it
  returned), and the number of directory reads that have settled.
\<close>

type_synonym walk_result = "Item list list \<times> js_exn option \<times> nat"

text \<open>The \<^verbatim>\<open>catch\<close> clause of \<^verbatim>\<open>inner\<close>.\<close>

definition inner_catch :: "js_exn \<Rightarrow> nat \<Rightarrow> walk_result" where
  "inner_catch e clk = (if e = PermissionDenied then ([], None, clk) else ([], Some e, clk))"

text \<open>\<^verbatim>\<open>yield chunk\<close>, then the rest of the generator.\<close>

definition yield_then :: "Item list list \<Rightarrow> walk_result option \<Rightarrow> walk_result option" where
  "yield_then cs r = map_option (\<lambda>(cs', e, clk). (cs @ cs', e, clk)) r"

definition file_item :: "Platform \<Rightarrow> string \<Rightarrow> string \<Rightarrow> Item" where
  "file_item pf root abspath =
     \<lparr> word = path_relative pf root abspath, display = None, highlights = None,
       action = \<lparr> path = abspath, isDirectory = False \<rparr> \<rparr>"

text \<open>
  The \<^verbatim>\<open>for await\<close> loop of \<^verbatim>\<open>inner\<close> over the entries that are still to come, with
  the local \<open>chunk\<close>; \<open>rec\<close> is the recursive call \<^verbatim>\<open>inner(abspath)\<close>, \<open>fin\<close> the error
  that ends the directory iterator.
\<close>

fun inner_loop ::
  "(string \<Rightarrow> nat \<Rightarrow> walk_result option) \<Rightarrow> Platform \<Rightarrow> walk_args \<Rightarrow> string \<Rightarrow>
   DirEntry list \<Rightarrow> js_exn option \<Rightarrow> Item list \<Rightarrow> nat \<Rightarrow> walk_result option" where
  "inner_loop rec pf wa dir [] fin chunk clk =
     (case aborted (wa_signal wa) clk of
        Some r \<Rightarrow> Some (inner_catch r clk)
      | None \<Rightarrow>
          (case fin of
             Some e \<Rightarrow> Some (inner_catch e (Suc clk))
           | None \<Rightarrow> Some (if chunk \<noteq> [] then [chunk] else [], None, Suc clk)))"
| "inner_loop rec pf wa dir (entry # rest) fin chunk clk =
     (case aborted (wa_signal wa) clk of
        Some r \<Rightarrow> Some (inner_catch r clk)
      | None \<Rightarrow>
          (case readStat pf (path_join pf dir (entry_name entry)) (wa_expandSymbolicLink wa) of
             None \<Rightarrow> inner_loop rec pf wa dir rest fin chunk (Suc clk)
           | Some st \<Rightarrow>
               (if \<not> fi_isDirectory st then
                  (if wa_chunkSize wa \<le> int (length chunk) + 1 then
                     yield_then
                       [chunk @ [file_item pf (wa_root wa) (path_join pf dir (entry_name entry))]]
                       (inner_loop rec pf wa dir rest fin [] (Suc clk))
                   else
                     inner_loop rec pf wa dir rest fin
                       (chunk @ [file_item pf (wa_root wa) (path_join pf dir (entry_name entry))])
                       (Suc clk))
                else if entry_name entry \<in> set (wa_ignoredDirectories wa) then
                  inner_loop rec pf wa dir rest fin chunk (Suc clk)
                else
                  (case (if fi_isSymlink st \<and> fi_isDirectory st
                         then map_sum id (str_includes (path_join pf dir (entry_name entry)))
                                (realPath pf (path_join pf dir (entry_name entry)))
                         else Inr False) of
                     Inl e \<Rightarrow> Some (inner_catch e (Suc clk))
                   | Inr True \<Rightarrow> inner_loop rec pf wa dir rest fin chunk (Suc clk)
                   | Inr False \<Rightarrow>
                       (case rec (path_join pf dir (entry_name entry)) (Suc clk) of
                          None \<Rightarrow> None
                        | Some (cs, Some e, clk') \<Rightarrow>
                            yield_then cs (Some (inner_catch e clk'))
                        | Some (cs, None, clk') \<Rightarrow>
                            yield_then cs (inner_loop rec pf wa dir rest fin chunk clk'))))))"

text \<open>
  \<^verbatim>\<open>inner(dir)\<close>.  The recursion follows the directories of the file system, which
  symbolic links can make cyclic, so the depth of the recursion is bounded by fuel:
  \<open>None\<close> is a walk that needs more.
\<close>

primrec inner :: "nat \<Rightarrow> Platform \<Rightarrow> walk_args \<Rightarrow> string \<Rightarrow> nat \<Rightarrow> walk_result option" where
  "inner 0 pf wa dir clk = None"
| "inner (Suc n) pf wa dir clk =
     inner_loop (inner n pf wa) pf wa dir (fst (readDir pf dir)) (snd (readDir pf dir)) [] clk"

definition walkFiles ::
  "nat \<Rightarrow> Platform \<Rightarrow> string \<Rightarrow> string list \<Rightarrow> AbortSignal \<Rightarrow> int \<Rightarrow> bool \<Rightarrow> walk_result option" where
  "walkFiles fuel pf root ignored signal csize expand =
     inner fuel pf
       \<lparr> wa_root = root, wa_ignoredDirectories = ignored, wa_signal = signal,
         wa_chunkSize = csize, wa_expandSymbolicLink = expand \<rparr> root 0"

subsection \<open>Main source\<close>

text \<open>
  What \<^verbatim>\<open>gather\<close> shares between the three sources: the set \<open>seen\<close>, the batches
  passed to \<^verbatim>\<open>controller.enqueue\<close> (oldest first) and what was written with
  \<^verbatim>\<open>console.error\<close>.
\<close>

record run_state =
  rs_seen :: "string set"
  rs_queue :: "Item list list"
  rs_console :: "log_entry list"

definition gather_buffer ::
  "Denops \<Rightarrow> Platform \<Rightarrow> GatherArguments \<Rightarrow> run_state \<Rightarrow> js_exn option \<times> run_state" where
  "gather_buffer dn pf args st =
     (if enableBuffer (sourceParams args) then
        (case gatherBuffer dn pf (bufNr (gather_context args))
                (bufferOrderby (sourceParams args)) (rs_seen st)
                (dedup (sourceParams args)) (showSourcePrefix (sourceParams args)) of
           (Inl e, s) \<Rightarrow> (Some e, st\<lparr> rs_seen := s \<rparr>)
         | (Inr bufItems, s) \<Rightarrow>
             (None, st\<lparr> rs_seen := s,
                        rs_queue := (if bufItems \<noteq> [] then rs_queue st @ [bufItems] else rs_queue st) \<rparr>))
      else (None, st))"

definition gather_mr :: "Denops \<Rightarrow> GatherArguments \<Rightarrow> run_state \<Rightarrow> run_state" where
  "gather_mr dn args st =
     (if enableMr (sourceParams args) then
        (case gatherMr dn (mrKind (sourceParams args)) (rs_seen st)
                (dedup (sourceParams args)) (showSourcePrefix (sourceParams args)) of
           (mrItems, s, msgs) \<Rightarrow>
             st\<lparr> rs_seen := s,
                 rs_queue := (if mrItems \<noteq> [] then rs_queue st @ [mrItems] else rs_queue st),
                 rs_console := rs_console st @ msgs \<rparr>)
      else st)"

text \<open>The callback of \<^verbatim>\<open>chunk.filter\<close>, with its effect on \<open>seen\<close>.\<close>

fun seen_filter :: "Item list \<Rightarrow> string set \<Rightarrow> Item list \<times> string set" where
  "seen_filter [] seen = ([], seen)"
| "seen_filter (item # rest) seen =
     (if path (action item) = '''' then
        (case seen_filter rest seen of (xs, s) \<Rightarrow> (item # xs, s))
      else if normalizePath (path (action item)) \<in> seen then seen_filter rest seen
      else
        (case seen_filter rest (insert (normalizePath (path (action item))) seen) of
           (xs, s) \<Rightarrow> (item # xs, s)))"

definition rec_prefix :: "Item \<Rightarrow> Item" where
  "rec_prefix item =
     item\<lparr> display := Some (''[rec] '' @ word item),
           highlights := Some [\<lparr> hl_name = ''ddu_tri_source_rec'',
                                 hl_group = ''DduTriSource_rec'',
                                 col = 1,
                                 width = length ''[rec] '' \<rparr>] \<rparr>"

text \<open>The locals of the third block and the shared state they work on.\<close>

record rec_state =
  enqueueSize :: int
  pendingItems :: "Item list"
  rec_seen :: "string set"
  rec_queue :: "Item list list"

text \<open>
  The body of the \<^verbatim>\<open>for await\<close> loop over the chunks of \<^verbatim>\<open>walkFiles\<close>: first the
  filter and the prefix, then the buffer and its threshold.
\<close>

definition rec_filter :: "Params \<Rightarrow> Item list \<Rightarrow> string set \<Rightarrow> Item list \<times> string set" where
  "rec_filter prm chunk sn =
     (case (if dedup prm then seen_filter chunk sn else (chunk, sn)) of
        (filtered, s) \<Rightarrow>
          (if showSourcePrefix prm then map rec_prefix filtered else filtered, s))"

definition rec_step :: "Params \<Rightarrow> rec_state \<Rightarrow> Item list \<Rightarrow> rec_state" where
  "rec_step prm st chunk =
     (case rec_filter prm chunk (rec_seen st) of
        (filtered, s) \<Rightarrow>
          (if enqueueSize st \<le> int (length (pendingItems st @ filtered)) then
             st\<lparr> enqueueSize := 10 * chunkSize prm,
                 rec_queue := rec_queue st @ [pendingItems st @ filtered],
                 pendingItems := [],
                 rec_seen := s \<rparr>
           else
             st\<lparr> pendingItems := pendingItems st @ filtered, rec_seen := s \<rparr>))"

definition rec_loop :: "Params \<Rightarrow> rec_state \<Rightarrow> Item list list \<Rightarrow> rec_state" where
  "rec_loop prm st chunks = foldl (rec_step prm) st chunks"

definition gather_root :: "Platform \<Rightarrow> GatherArguments \<Rightarrow> string" where
  "gather_root pf args =
     (let root = treePath2Filename pf
                   (if treePath_length (sourceOptions_path args) \<noteq> 0
                    then sourceOptions_path args
                    else ctx_path (gather_context args))
      in path_resolve pf root root)"

text \<open>
  The third block.  The result is the exception that leaves the block, if any, the
  state, and the number of directory reads; \<open>None\<close> is a walk that needs more fuel.
\<close>

definition gather_rec ::
  "nat \<Rightarrow> Platform \<Rightarrow> GatherArguments \<Rightarrow> AbortSignal \<Rightarrow> run_state \<Rightarrow>
   (js_exn option \<times> run_state \<times> nat) option" where
  "gather_rec fuel pf args signal st =
     (if enableFileRec (sourceParams args) then
        (case walkFiles fuel pf (gather_root pf args) (ignoredDirectories (sourceParams args))
                signal (chunkSize (sourceParams args)) (expandSymbolicLink (sourceParams args)) of
           None \<Rightarrow> None
         | Some (chunks, thrown, clk) \<Rightarrow>
             (let st' = rec_loop (sourceParams args)
                          \<lparr> enqueueSize = chunkSize (sourceParams args), pendingItems = [],
                            rec_seen = rs_seen st, rec_queue = rs_queue st \<rparr> chunks
              in case thrown of
                   Some e \<Rightarrow> Some (Some e, st\<lparr> rs_seen := rec_seen st', rs_queue := rec_queue st' \<rparr>, clk)
                 | None \<Rightarrow>
                     Some (None,
                           st\<lparr> rs_seen := rec_seen st',
                               rs_queue := (if pendingItems st' \<noteq> []
                                         then rec_queue st' @ [pendingItems st']
                                         else rec_queue st') \<rparr>,
                           clk)))
      else Some (None, st, 0))"

text \<open>What the stream's consumer and the console have seen when \<^verbatim>\<open>start\<close> is over.\<close>

record gather_result =
  delivered :: "Item list list"
  closed :: bool
  logged :: "log_entry list"
  reads :: nat

text \<open>The \<^verbatim>\<open>catch\<close> clause of \<^verbatim>\<open>start\<close>.\<close>

definition isAbortReason :: "js_exn \<Rightarrow> bool" where
  "isAbortReason e = (instanceofError e \<and> str_includes (exn_name e) ''AbortReason'')"

definition gather_finish :: "js_exn option \<Rightarrow> run_state \<Rightarrow> nat \<Rightarrow> gather_result" where
  "gather_finish thrown st clk =
     \<lparr> delivered = rs_queue st,
       closed = True,
       logged = (case thrown of
                   None \<Rightarrow> rs_console st
                 | Some e \<Rightarrow> if isAbortReason e then rs_console st else rs_console st @ [GatherError e]),
       reads = clk \<rparr>"

text \<open>
  \<^verbatim>\<open>Source.gather\<close>: the three blocks in the \<^verbatim>\<open>try\<close>, then \<^verbatim>\<open>catch\<close> and \<^verbatim>\<open>finally\<close>.
  The signal is observed by the walk only, so a cancellation is placed in the walk.
\<close>

definition gather ::
  "nat \<Rightarrow> Denops \<Rightarrow> Platform \<Rightarrow> GatherArguments \<Rightarrow> AbortSignal \<Rightarrow> gather_result option" where
  "gather fuel dn pf args signal =
     (case gather_buffer dn pf args \<lparr> rs_seen = {}, rs_queue = [], rs_console = [] \<rparr> of
        (Some e, st1) \<Rightarrow> Some (gather_finish (Some e) st1 0)
      | (None, st1) \<Rightarrow>
          (case gather_rec fuel pf args signal (gather_mr dn args st1) of
             None \<Rightarrow> None
           | Some (thrown, st3, clk) \<Rightarrow> Some (gather_finish thrown st3 clk)))"

text \<open>\<^verbatim>\<open>Source.params\<close>: the defaults.\<close>

definition params :: Params where
  "params =
     \<lparr> enableBuffer = True, enableMr = True, enableFileRec = True,
       ignoredDirectories = [''.git''], chunkSize = 1000, expandSymbolicLink = False,
       mrKind = ''mru'', bufferOrderby = ''desc'', dedup = True, showSourcePrefix = True \<rparr>"

subsection \<open>What each source produces\<close>

text \<open>
  The item that \<^verbatim>\<open>gatherBuffer\<close> builds for a buffer, the item that \<^verbatim>\<open>gatherMr\<close>
  builds for a path, and the item that the third block passes on for a path of the walk.
\<close>

definition buffer_item :: "Platform \<Rightarrow> GetBufInfoReturn \<Rightarrow> nat \<Rightarrow> bool \<Rightarrow> BufInfo \<Rightarrow> Item" where
  "buffer_item pf info bn showPrefix buf =
     makeItem (buffer_word pf (currentDir info) bn (alternateBufNr info) buf) (name buf)
       ''buf'' showPrefix False"

definition mr_item :: "string \<Rightarrow> bool \<Rightarrow> string \<Rightarrow> Item" where
  "mr_item kind showPrefix p = makeItem p p kind showPrefix (kind \<in> {''mrr'', ''mrd''})"

definition rec_item :: "Platform \<Rightarrow> string \<Rightarrow> bool \<Rightarrow> string \<Rightarrow> Item" where
  "rec_item pf root showPrefix p =
     (if showPrefix then rec_prefix (file_item pf root p) else file_item pf root p)"

text \<open>A buffer that the loop of \<^verbatim>\<open>gatherBuffer\<close> does not skip as unnamed or as a terminal.\<close>

definition buffer_kept :: "Denops \<Rightarrow> BufInfo \<Rightarrow> bool" where
  "buffer_kept dn buf =
     (name buf \<noteq> '''' \<and> getbufvar_buftype dn (bufnr buf) \<noteq> Inr (JString ''terminal''))"

definition buffer_origin :: "Denops \<Rightarrow> Platform \<Rightarrow> GatherArguments \<Rightarrow> Item \<Rightarrow> bool" where
  "buffer_origin dn pf args i =
     (case getbufinfo dn of
        Inl e \<Rightarrow> False
      | Inr info \<Rightarrow>
          (\<exists>buf \<in> set (buffers info). listed buf \<and> buffer_kept dn buf \<and>
             i = buffer_item pf info (bufNr (gather_context args))
                   (showSourcePrefix (sourceParams args)) buf))"

definition mr_origin :: "Denops \<Rightarrow> GatherArguments \<Rightarrow> Item \<Rightarrow> bool" where
  "mr_origin dn args i =
     (case mr_call dn (mrKind (sourceParams args)) of
        Inl e \<Rightarrow> False
      | Inr result \<Rightarrow>
          (\<exists>p \<in> set result.
             i = mr_item (mrKind (sourceParams args)) (showSourcePrefix (sourceParams args)) p))"

definition rec_origin :: "Platform \<Rightarrow> GatherArguments \<Rightarrow> Item \<Rightarrow> bool" where
  "rec_origin pf args i =
     (i = rec_item pf (gather_root pf args) (showSourcePrefix (sourceParams args))
            (path (action i)))"

text \<open>The keys that the buffer source and the MRU source produce when they are enabled.\<close>

definition buffer_keys :: "Denops \<Rightarrow> GatherArguments \<Rightarrow> string set" where
  "buffer_keys dn args =
     (if enableBuffer (sourceParams args) then
        (case getbufinfo dn of
           Inl e \<Rightarrow> {}
         | Inr info \<Rightarrow>
             set (map (\<lambda>buf. normalizePath (name buf))
                    (filter (\<lambda>buf. listed buf \<and> buffer_kept dn buf) (buffers info))))
      else {})"

definition mr_keys :: "Denops \<Rightarrow> GatherArguments \<Rightarrow> string set" where
  "mr_keys dn args =
     (if enableMr (sourceParams args) then
        (case mr_call dn (mrKind (sourceParams args)) of
           Inl e \<Rightarrow> {}
         | Inr result \<Rightarrow> set (map normalizePath result))
      else {})"

subsection \<open>A small editor and file system\<close>

text \<open>
  Directory \<^verbatim>\<open>/w\<close> holds \<^verbatim>\<open>a.txt\<close>, the directory \<^verbatim>\<open>sub\<close> with \<^verbatim>\<open>c.txt\<close>, the
  symbolic link \<^verbatim>\<open>loop\<close> to \<^verbatim>\<open>/w\<close> itself, the unreadable directory \<^verbatim>\<open>locked\<close>, and
  the directory \<^verbatim>\<open>data\<close> with the symbolic link \<^verbatim>\<open>ext\<close> to the directory \<^verbatim>\<open>/data\<close>,
  which holds \<^verbatim>\<open>f.txt\<close>.  Directory \<^verbatim>\<open>/x\<close> holds the directory \<^verbatim>\<open>bad\<close>, whose
  reading fails with an I/O error, and \<^verbatim>\<open>z.txt\<close>.
\<close>

definition ex_dirs :: "string list" where
  "ex_dirs = [''/w/sub'', ''/w/locked'', ''/w/data'', ''/x/bad'']"

definition ex_links :: "string list" where
  "ex_links = [''/w/loop'', ''/w/data/ext'']"

definition ex_readDir :: "string \<Rightarrow> DirEntry list \<times> js_exn option" where
  "ex_readDir d =
     (if d = ''/w'' then
        ([\<lparr>entry_name = ''a.txt''\<rparr>, \<lparr>entry_name = ''sub''\<rparr>, \<lparr>entry_name = ''loop''\<rparr>,
          \<lparr>entry_name = ''locked''\<rparr>, \<lparr>entry_name = ''data''\<rparr>], None)
      else if d = ''/w/sub'' then ([\<lparr>entry_name = ''c.txt''\<rparr>], None)
      else if d = ''/w/loop'' then
        ([\<lparr>entry_name = ''a.txt''\<rparr>, \<lparr>entry_name = ''sub''\<rparr>, \<lparr>entry_name = ''loop''\<rparr>,
          \<lparr>entry_name = ''locked''\<rparr>, \<lparr>entry_name = ''data''\<rparr>], None)
      else if d = ''/w/locked'' then ([], Some PermissionDenied)
      else if d = ''/w/data'' then ([\<lparr>entry_name = ''ext''\<rparr>], None)
      else if d = ''/w/data/ext'' then ([\<lparr>entry_name = ''f.txt''\<rparr>], None)
      else if d = ''/x'' then ([\<lparr>entry_name = ''bad''\<rparr>, \<lparr>entry_name = ''z.txt''\<rparr>], None)
      else if d = ''/x/bad'' then ([], Some (Error ''Error''))
      else ([], Some (Error ''NotFound'')))"

definition ex_platform :: Platform where
  "ex_platform =
     \<lparr> readDir = ex_readDir,
       lstat = (\<lambda>p. Inr \<lparr> fi_isDirectory = (p \<in> set ex_dirs), fi_isSymlink = (p \<in> set ex_links) \<rparr>),
       stat = (\<lambda>p. Inr \<lparr> fi_isDirectory = (p \<in> set ex_dirs \<or> p \<in> set ex_links),
                          fi_isSymlink = False \<rparr>),
       realPath = (\<lambda>p. if p = ''/w/loop'' then Inr ''/w''
                        else if p = ''/w/data/ext'' then Inr ''/data''
                        else Inr p),
       pathsep = ''/'',
       path_join = (\<lambda>d n. d @ ''/'' @ n),
       path_resolve = (\<lambda>a b. b),
       path_relative = (\<lambda>r p. drop (Suc (length r)) p) \<rparr>"

text \<open>
  The editor has \<^verbatim>\<open>/w/a.txt\<close> and \<^verbatim>\<open>/w/n.txt\<close> open; the MRU list is \<^verbatim>\<open>/w/a.txt\<close>,
  \<^verbatim>\<open>/w/sub/c.txt\<close>.
\<close>

definition ex_denops :: Denops where
  "ex_denops =
     \<lparr> getbufinfo = Inr \<lparr> currentDir = ''/w'', alternateBufNr = 2,
          buffers = [\<lparr> bufnr = 1, changed = False, lastused = 10, listed = True,
                        name = ''/w/a.txt'' \<rparr>,
                     \<lparr> bufnr = 2, changed = True, lastused = 20, listed = True,
                        name = ''/w/n.txt'' \<rparr>] \<rparr>,
       getbufvar_buftype = (\<lambda>n. Inr (JString '''')),
       dispatch = (\<lambda>plugin method.
          Resolved (JArray [JString ''/w/a.txt'', JString ''/w/sub/c.txt''])) \<rparr>"

text \<open>The same editor with an MRU plugin that does not answer in time.\<close>

definition ex_denops_timeout :: Denops where
  "ex_denops_timeout = ex_denops\<lparr> dispatch := (\<lambda>plugin method. Pending) \<rparr>"

definition ex_args :: "string \<Rightarrow> Params \<Rightarrow> GatherArguments" where
  "ex_args root prm =
     \<lparr> gather_context = \<lparr> bufNr = 1, ctx_path = PathString root \<rparr>,
       sourceOptions_path = PathList [],
       sourceParams = prm \<rparr>"

subsection \<open>The stream of the third block\<close>

text \<open>
  The third block started on a set \<open>seen\<close> with nothing delivered yet, and what its
  filter lets through of a sequence of chunks, chunk after chunk, without the buffer.
\<close>

definition rec_run :: "Params \<Rightarrow> string set \<Rightarrow> Item list list \<Rightarrow> rec_state" where
  "rec_run prm sn chunks =
     rec_loop prm
       \<lparr> enqueueSize = chunkSize prm, pendingItems = [], rec_seen = sn, rec_queue = [] \<rparr> chunks"

fun rec_stream :: "Params \<Rightarrow> Item list list \<Rightarrow> string set \<Rightarrow> Item list" where
  "rec_stream prm [] sn = []"
| "rec_stream prm (c # cs) sn =
     fst (rec_filter prm c sn) @ rec_stream prm cs (snd (rec_filter prm c sn))"

fun rec_stream_seen :: "Params \<Rightarrow> Item list list \<Rightarrow> string set \<Rightarrow> string set" where
  "rec_stream_seen prm [] sn = sn"
| "rec_stream_seen prm (c # cs) sn = rec_stream_seen prm cs (snd (rec_filter prm c sn))"

text \<open>What holds of the buffer of the third block at every point of its loop.\<close>

definition emitter_inv :: "int \<Rightarrow> rec_state \<Rightarrow> bool" where
  "emitter_inv c st \<longleftrightarrow>
     enqueueSize st = (if rec_queue st = [] then c else 10 * c)
     \<and> (rec_queue st \<noteq> [] \<longrightarrow> c \<le> int (length (hd (rec_queue st))))
     \<and> (\<forall>b \<in> set (tl (rec_queue st)). 10 * c \<le> int (length b))
     \<and> (0 < c \<longrightarrow> int (length (pendingItems st)) < enqueueSize st)"

subsection \<open>A cancelled walk against the walk that is not cancelled\<close>

text \<open>
  How the result of a generator under a cancellation \<open>(t, r)\<close> relates to its result
  without: when the generator ends within \<open>t\<close> reads the results are the same,
  otherwise the cancelled one throws \<open>r\<close> after a prefix of the chunks.
\<close>

definition cut :: "nat \<Rightarrow> js_exn \<Rightarrow> walk_result \<Rightarrow> walk_result \<Rightarrow> bool" where
  "cut t r res res' \<longleftrightarrow>
     (snd (snd res) \<le> t \<and> res' = res)
     \<or> (t < snd (snd res) \<and> prefix (fst res') (fst res) \<and> fst (snd res') = Some r)"

text \<open>An item that the walk has built.\<close>

definition walk_item :: "Platform \<Rightarrow> string \<Rightarrow> Item \<Rightarrow> bool" where
  "walk_item pf root i \<longleftrightarrow> (\<exists>d n. i = file_item pf root (path_join pf d n))"

subsection \<open>The candidates of the three sources\<close>



definition rec_decorate :: "bool \<Rightarrow> Item \<Rightarrow> Item" where
  "rec_decorate showPrefix item = (if showPrefix then rec_prefix item else item)"


section \<open>The MRU source fails without stopping the run\<close>

lemma the_strings_map: "the_strings (map JString ss) = Some ss"
  by (induction ss) auto

lemma the_strings_Some: "the_strings vs = Some ss \<longleftrightarrow> vs = map JString ss"
proof (induction vs arbitrary: ss)
  case Nil
  then show ?case by auto
next
  case (Cons v vs)
  then show ?case by (cases v; cases ss) auto
qed

lemma ensure_ArrayOf_String_Inr:
  "ensure_ArrayOf_String v = Inr ss \<longleftrightarrow> v = JArray (map JString ss)"
  by (cases v) (auto simp: the_strings_Some the_strings_map inj_map_eq_map inj_def split: option.splits)

lemma mr_call_Inr:
  "mr_call dn kind = Inr ss \<longleftrightarrow>
   dispatch dn ''mr'' (kind @ '':list'') = Resolved (JArray (map JString ss))"
  unfolding mr_call_def
  by (cases "dispatch dn ''mr'' (kind @ '':list'')") (auto simp: ensure_ArrayOf_String_Inr)

lemma gather_mr_failed:
  assumes "mr_call dn (mrKind (sourceParams args)) = Inl e" "enableMr (sourceParams args)"
  shows "gather_mr dn args st = st\<lparr> rs_console := rs_console st @ [mr_diagnostic e] \<rparr>"
  using assms by (simp add: gather_mr_def gatherMr_def)

lemma gather_mr_disabled: "\<not> enableMr (sourceParams args) \<Longrightarrow> gather_mr dn args st = st"
  by (simp add: gather_mr_def)

lemma gather_root_enableMr:
  "gather_root pf (args\<lparr> sourceParams := (sourceParams args)\<lparr> enableMr := b \<rparr> \<rparr>) = gather_root pf args"
  by (simp add: gather_root_def)

lemma rec_step_enableMr: "rec_step (prm\<lparr> enableMr := b \<rparr>) = rec_step prm"
  by (intro ext) (simp add: rec_step_def rec_filter_def split: prod.splits)

lemma rec_loop_enableMr: "rec_loop (prm\<lparr> enableMr := b \<rparr>) = rec_loop prm"
  by (intro ext) (simp add: rec_loop_def rec_step_enableMr)

lemma gather_rec_enableMr:
  "gather_rec fuel pf (args\<lparr> sourceParams := (sourceParams args)\<lparr> enableMr := b \<rparr> \<rparr>) sig st =
   gather_rec fuel pf args sig st"
  by (simp add: gather_rec_def gather_root_enableMr rec_loop_enableMr split: option.splits prod.splits)

lemma gather_buffer_enableMr:
  "gather_buffer dn pf (args\<lparr> sourceParams := (sourceParams args)\<lparr> enableMr := b \<rparr> \<rparr>) st =
   gather_buffer dn pf args st"
  by (simp add: gather_buffer_def)

lemma gather_rec_console_update:
  "gather_rec fuel pf args sig (st\<lparr> rs_console := c \<rparr>) =
   map_option (\<lambda>(th, st', k). (th, st'\<lparr> rs_console := c \<rparr>, k)) (gather_rec fuel pf args sig st)"
  by (auto simp: gather_rec_def Let_def split: option.splits)

lemma gather_rec_console:
  "gather_rec fuel pf args sig st = Some (th, st', k) \<Longrightarrow> rs_console st' = rs_console st"
  by (auto simp: gather_rec_def Let_def split: option.splits if_splits)

lemma gather_buffer_console:
  "gather_buffer dn pf args st = (th, st') \<Longrightarrow> rs_console st' = rs_console st"
  by (auto simp: gather_buffer_def split: if_splits prod.splits sum.splits)

text \<open>
  C7.  When the call to the MRU plugin does not resolve to a list of strings (the
  deadline passes, the call is rejected, or the answer is malformed), \<^verbatim>\<open>gatherMr\<close>
  catches the exception \<open>e\<close>, writes one diagnostic, returns the empty list and leaves
  \<open>seen\<close> as it was; the whole run is then the run with the MRU source disabled, except
  that the diagnostic is on the console (it is written when the buffer source has not
  thrown, since only then is the MRU source reached).
\<close>

theorem mr_failure_is_local:
  assumes fail: "\<forall>ss. dispatch dn ''mr'' (mrKind (sourceParams args) @ '':list'')
                       \<noteq> Resolved (JArray (map JString ss))"
    and en: "enableMr (sourceParams args)"
  shows "\<exists>e. mr_call dn (mrKind (sourceParams args)) = Inl e
           \<and> gatherMr dn (mrKind (sourceParams args)) sn dd sp = ([], sn, [mr_diagnostic e])
           \<and> gather fuel dn pf args sig =
               map_option (\<lambda>res. res\<lparr> logged :=
                   (if fst (gather_buffer dn pf args
                              \<lparr> rs_seen = {}, rs_queue = [], rs_console = [] \<rparr>) = None
                    then mr_diagnostic e # logged res else logged res) \<rparr>)
                 (gather fuel dn pf
                    (args\<lparr> sourceParams := (sourceParams args)\<lparr> enableMr := False \<rparr> \<rparr>) sig)"
proof -
  obtain e where e: "mr_call dn (mrKind (sourceParams args)) = Inl e"
    using fail mr_call_Inr by (cases "mr_call dn (mrKind (sourceParams args))") auto
  have g: "gatherMr dn (mrKind (sourceParams args)) sn dd sp = ([], sn, [mr_diagnostic e])"
    using e by (simp add: gatherMr_def)
  let ?args' = "args\<lparr> sourceParams := (sourceParams args)\<lparr> enableMr := False \<rparr> \<rparr>"
  let ?st0 = "\<lparr> rs_seen = {}, rs_queue = [], rs_console = [] \<rparr>"
  obtain th st1 where b: "gather_buffer dn pf args ?st0 = (th, st1)"
    by force
  have c1: "rs_console st1 = []"
    using gather_buffer_console[OF b] by simp
  have "gather fuel dn pf args sig =
          map_option (\<lambda>res. res\<lparr> logged :=
              (if fst (gather_buffer dn pf args ?st0) = None
               then mr_diagnostic e # logged res else logged res) \<rparr>)
            (gather fuel dn pf ?args' sig)"
  proof (cases th)
    case (Some x)
    then show ?thesis
      using b by (simp add: gather_def gather_buffer_enableMr gather_finish_def)
  next
    case None
    have m: "gather_mr dn args st1 = st1\<lparr> rs_console := rs_console st1 @ [mr_diagnostic e] \<rparr>"
      by (rule gather_mr_failed[OF e en])
    have m': "gather_mr dn ?args' st1 = st1"
      by (simp add: gather_mr_disabled)
    show ?thesis
    proof (cases "gather_rec fuel pf args sig st1")
      case None
      then show ?thesis
        using b \<open>th = None\<close> m m'
        by (simp add: gather_def gather_buffer_enableMr gather_rec_enableMr
            gather_rec_console_update)
    next
      case (Some r)
      obtain th3 st3 k where r: "r = (th3, st3, k)"
        by (cases r) auto
      have c3: "rs_console st3 = []"
        using gather_rec_console Some r c1 by metis
      show ?thesis
        using b \<open>th = None\<close> m m' Some r c3
        by (cases th3)
           (simp_all add: c1 gather_def gather_buffer_enableMr gather_rec_enableMr
              gather_rec_console_update gather_finish_def)
    qed
  qed
  with e g show ?thesis
    by blast
qed

text \<open>
  The deadline passes while \<^verbatim>\<open>/w/sub\<close> is gathered: the hypotheses hold, and the run
  still delivers the buffer batch and the batches of the walk, with the diagnostic of the
  MRU source as the only message.
\<close>

theorem mr_failure_is_local_witness:
  "(\<forall>ss. dispatch ex_denops_timeout ''mr'' (mrKind (sourceParams (ex_args ''/w/sub'' params)) @ '':list'')
            \<noteq> Resolved (JArray (map JString ss)))
   \<and> enableMr (sourceParams (ex_args ''/w/sub'' params))
   \<and> gatherMr ex_denops_timeout ''mru'' {} True True = ([], {}, [MrCallFailed])
   \<and> map_option logged (gather 3 ex_denops_timeout ex_platform (ex_args ''/w/sub'' params) None)
       = Some [MrCallFailed]
   \<and> map_option (length \<circ> delivered)
       (gather 3 ex_denops_timeout ex_platform (ex_args ''/w/sub'' params) None) = Some 2"
proof -
  have h1: "\<forall>ss. dispatch ex_denops_timeout ''mr''
                   (mrKind (sourceParams (ex_args ''/w/sub'' params)) @ '':list'')
                 \<noteq> Resolved (JArray (map JString ss))"
    by (simp add: ex_denops_timeout_def)
  have h2: "enableMr (sourceParams (ex_args ''/w/sub'' params))"
    by (simp add: ex_args_def params_def)
  have k: "mrKind (sourceParams (ex_args ''/w/sub'' params)) = ''mru''"
    by (simp add: ex_args_def params_def)
  have c: "mr_call ex_denops_timeout ''mru'' = Inl (DOMException ''TimeoutError'')"
    by (simp add: mr_call_def ex_denops_timeout_def)
  have g3: "gatherMr ex_denops_timeout ''mru'' {} True True = ([], {}, [MrCallFailed])"
    using mr_failure_is_local[OF h1 h2, of "{}" True True 3 ex_platform None]
    by (auto simp: k c mr_diagnostic_def)
  have g4: "map_option logged (gather 3 ex_denops_timeout ex_platform (ex_args ''/w/sub'' params) None)
       = Some [MrCallFailed]"
    by code_simp
  have g5: "map_option (length \<circ> delivered)
       (gather 3 ex_denops_timeout ex_platform (ex_args ''/w/sub'' params) None) = Some 2"
    by code_simp
  show ?thesis
    using h1 h2 g3 g4 g5 by blast
qed

section \<open>The loop over the chunks\<close>

lemma rec_loop_Nil [simp]: "rec_loop prm st [] = st"
  by (simp add: rec_loop_def)

lemma rec_loop_Cons [simp]: "rec_loop prm st (c # cs) = rec_loop prm (rec_step prm st c) cs"
  by (simp add: rec_loop_def)


lemma rec_step_seen: "rec_seen (rec_step prm st c) = snd (rec_filter prm c (rec_seen st))"
  by (simp add: rec_step_def split: prod.splits)

lemma rec_step_out:
  "concat (rec_queue (rec_step prm st c)) @ pendingItems (rec_step prm st c) =
   concat (rec_queue st) @ pendingItems st @ fst (rec_filter prm c (rec_seen st))"
  by (simp add: rec_step_def split: prod.splits)

lemma rec_loop_seen: "rec_seen (rec_loop prm st cs) = rec_stream_seen prm cs (rec_seen st)"
  by (induction cs arbitrary: st) (simp_all add: rec_step_seen)

lemma rec_loop_out:
  "concat (rec_queue (rec_loop prm st cs)) @ pendingItems (rec_loop prm st cs) =
   concat (rec_queue st) @ pendingItems st @ rec_stream prm cs (rec_seen st)"
proof (induction cs arbitrary: st)
  case Nil
  then show ?case by simp
next
  case (Cons c cs)
  show ?case
    using Cons[of "rec_step prm st c"] rec_step_out[of prm st c]
    by (simp add: rec_step_seen)
qed

lemma rec_step_queue_shift:
  "rec_step prm (st\<lparr> rec_queue := q @ rec_queue st \<rparr>) c =
   (rec_step prm st c)\<lparr> rec_queue := q @ rec_queue (rec_step prm st c) \<rparr>"
  by (simp add: rec_step_def split: prod.splits)

lemma rec_loop_queue_shift:
  "rec_loop prm (st\<lparr> rec_queue := q @ rec_queue st \<rparr>) cs =
   (rec_loop prm st cs)\<lparr> rec_queue := q @ rec_queue (rec_loop prm st cs) \<rparr>"
proof (induction cs arbitrary: st)
  case Nil
  then show ?case by simp
next
  case (Cons c cs)
  show ?case
    using Cons[of "rec_step prm st c"] by (simp add: rec_step_queue_shift)
qed

lemma rec_loop_from_queue:
  "rec_loop prm \<lparr> enqueueSize = n, pendingItems = p, rec_seen = s, rec_queue = q \<rparr> cs =
   (rec_loop prm \<lparr> enqueueSize = n, pendingItems = p, rec_seen = s, rec_queue = [] \<rparr> cs)
     \<lparr> rec_queue := q @ rec_queue (rec_loop prm \<lparr> enqueueSize = n, pendingItems = p, rec_seen = s, rec_queue = [] \<rparr> cs) \<rparr>"
  using rec_loop_queue_shift[where prm = prm and q = q and cs = cs
      and st = "\<lparr> enqueueSize = n, pendingItems = p, rec_seen = s, rec_queue = [] \<rparr>"]
  by simp



lemma emitter_inv_step:
  assumes "emitter_inv (chunkSize prm) st"
  shows "emitter_inv (chunkSize prm) (rec_step prm st c)"
proof (cases "rec_queue st = []")
  case True
  with assms show ?thesis
    by (auto simp: emitter_inv_def rec_step_def split: prod.splits)
next
  case False
  with assms show ?thesis
    by (auto simp: emitter_inv_def rec_step_def split: prod.splits)
qed

lemma emitter_inv_loop:
  "emitter_inv (chunkSize prm) st \<Longrightarrow> emitter_inv (chunkSize prm) (rec_loop prm st cs)"
  by (induction cs arbitrary: st) (simp_all add: emitter_inv_step)

lemma emitter_inv_init:
  "emitter_inv c \<lparr> enqueueSize = c, pendingItems = [], rec_seen = s, rec_queue = [] \<rparr>"
  by (simp add: emitter_inv_def)

lemma emitter_inv_nonempty:
  assumes "emitter_inv c st" "0 < c"
  shows "[] \<notin> set (rec_queue st)"
proof
  assume "[] \<in> set (rec_queue st)"
  then have ne: "rec_queue st \<noteq> []" by auto
  then have "rec_queue st = hd (rec_queue st) # tl (rec_queue st)" by simp
  then have "[] = hd (rec_queue st) \<or> [] \<in> set (tl (rec_queue st))"
    using \<open>[] \<in> set (rec_queue st)\<close> by (metis set_ConsD)
  then show False
    using assms ne by (auto simp: emitter_inv_def)
qed

section \<open>The shape of a run\<close>

lemma gather_buffer_shape:
  "gather_buffer dn pf args st =
     (case (if enableBuffer (sourceParams args)
            then gatherBuffer dn pf (bufNr (gather_context args)) (bufferOrderby (sourceParams args))
                   (rs_seen st) (dedup (sourceParams args)) (showSourcePrefix (sourceParams args))
            else (Inr [], rs_seen st)) of
        (Inl e, s) \<Rightarrow> (Some e, st\<lparr> rs_seen := s \<rparr>)
      | (Inr bufItems, s) \<Rightarrow>
          (None, st\<lparr> rs_seen := s,
                     rs_queue := rs_queue st @ (if bufItems = [] then [] else [bufItems]) \<rparr>))"
  by (simp add: gather_buffer_def split: prod.splits sum.splits)

lemma gather_mr_shape:
  "gather_mr dn args st =
     (case (if enableMr (sourceParams args)
            then gatherMr dn (mrKind (sourceParams args)) (rs_seen st)
                   (dedup (sourceParams args)) (showSourcePrefix (sourceParams args))
            else ([], rs_seen st, [])) of
        (mrItems, s, msgs) \<Rightarrow>
          st\<lparr> rs_seen := s,
              rs_queue := rs_queue st @ (if mrItems = [] then [] else [mrItems]),
              rs_console := rs_console st @ msgs \<rparr>)"
  by (simp add: gather_mr_def split: prod.splits)

lemma gather_rec_shape:
  "gather_rec fuel pf args sig st =
     (case (if enableFileRec (sourceParams args)
            then walkFiles fuel pf (gather_root pf args) (ignoredDirectories (sourceParams args))
                   sig (chunkSize (sourceParams args)) (expandSymbolicLink (sourceParams args))
            else Some ([], None, 0)) of
        None \<Rightarrow> None
      | Some (chunks, th, k) \<Rightarrow>
          Some (th,
                st\<lparr> rs_seen := rec_seen (rec_run (sourceParams args) (rs_seen st) chunks),
                    rs_queue := rs_queue st
                      @ rec_queue (rec_run (sourceParams args) (rs_seen st) chunks)
                      @ (if th = None \<and> pendingItems (rec_run (sourceParams args) (rs_seen st) chunks) \<noteq> []
                         then [pendingItems (rec_run (sourceParams args) (rs_seen st) chunks)]
                         else []) \<rparr>,
                k))"
proof (cases "enableFileRec (sourceParams args)")
  case False
  then show ?thesis
    by (simp add: gather_rec_def rec_run_def)
next
  case True
  show ?thesis
  proof (cases "walkFiles fuel pf (gather_root pf args) (ignoredDirectories (sourceParams args))
                   sig (chunkSize (sourceParams args)) (expandSymbolicLink (sourceParams args))")
    case None
    then show ?thesis using True by (simp add: gather_rec_def)
  next
    case (Some r)
    obtain chunks th k where r: "r = (chunks, th, k)" by (cases r) auto
    have q: "rec_loop (sourceParams args)
               \<lparr> enqueueSize = chunkSize (sourceParams args), pendingItems = [],
                 rec_seen = rs_seen st, rec_queue = rs_queue st \<rparr> chunks
             = (rec_run (sourceParams args) (rs_seen st) chunks)
                 \<lparr> rec_queue := rs_queue st @ rec_queue (rec_run (sourceParams args) (rs_seen st) chunks) \<rparr>"
      unfolding rec_run_def by (rule rec_loop_from_queue)
    show ?thesis
      using True Some r
      by (cases th) (simp_all add: gather_rec_def q Let_def)
  qed
qed

lemma gather_cases [consumes 1, case_names threw ran]:
  assumes g: "gather fuel dn pf args sig = Some res"
  obtains (threw) e s where
      "enableBuffer (sourceParams args)"
      "gatherBuffer dn pf (bufNr (gather_context args)) (bufferOrderby (sourceParams args)) {}
         (dedup (sourceParams args)) (showSourcePrefix (sourceParams args)) = (Inl e, s)"
      "delivered res = []"
      "logged res = (if isAbortReason e then [] else [GatherError e])"
      "reads res = 0" "closed res"
  | (ran) bufItems s1 mrItems s2 msgs chunks th k where
      "(if enableBuffer (sourceParams args)
        then gatherBuffer dn pf (bufNr (gather_context args)) (bufferOrderby (sourceParams args)) {}
               (dedup (sourceParams args)) (showSourcePrefix (sourceParams args))
        else (Inr [], {})) = (Inr bufItems, s1)"
      "(if enableMr (sourceParams args)
        then gatherMr dn (mrKind (sourceParams args)) s1
               (dedup (sourceParams args)) (showSourcePrefix (sourceParams args))
        else ([], s1, [])) = (mrItems, s2, msgs)"
      "(if enableFileRec (sourceParams args)
        then walkFiles fuel pf (gather_root pf args) (ignoredDirectories (sourceParams args))
               sig (chunkSize (sourceParams args)) (expandSymbolicLink (sourceParams args))
        else Some ([], None, 0)) = Some (chunks, th, k)"
      "delivered res =
         (if bufItems = [] then [] else [bufItems]) @ (if mrItems = [] then [] else [mrItems])
         @ rec_queue (rec_run (sourceParams args) s2 chunks)
         @ (if th = None \<and> pendingItems (rec_run (sourceParams args) s2 chunks) \<noteq> []
            then [pendingItems (rec_run (sourceParams args) s2 chunks)] else [])"
      "logged res = msgs @ (case th of None \<Rightarrow> [] | Some e \<Rightarrow> if isAbortReason e then [] else [GatherError e])"
      "reads res = k" "closed res"
proof -
  let ?prm = "sourceParams args"
  let ?B = "if enableBuffer ?prm
        then gatherBuffer dn pf (bufNr (gather_context args)) (bufferOrderby ?prm) {}
               (dedup ?prm) (showSourcePrefix ?prm)
        else (Inr [], {})"
  obtain b s1 where B: "?B = (b, s1)" by (cases ?B) auto
  show thesis
  proof (cases b)
    case (Inl e)
    have en: "enableBuffer ?prm" using B Inl by (auto split: if_splits)
    have gb: "gatherBuffer dn pf (bufNr (gather_context args)) (bufferOrderby ?prm) {}
               (dedup ?prm) (showSourcePrefix ?prm) = (Inl e, s1)"
      using B Inl en by simp
    have "res = gather_finish (Some e) \<lparr> rs_seen = s1, rs_queue = [], rs_console = [] \<rparr> 0"
      using g by (simp add: gather_def gather_buffer_shape gb en)
    then show ?thesis
      using threw[OF en gb] by (simp add: gather_finish_def)
  next
    case (Inr bufItems)
    let ?M = "if enableMr ?prm
        then gatherMr dn (mrKind ?prm) s1 (dedup ?prm) (showSourcePrefix ?prm)
        else ([], s1, [])"
    obtain mrItems s2 msgs where M: "?M = (mrItems, s2, msgs)" by (cases ?M) auto
    let ?W = "if enableFileRec ?prm
        then walkFiles fuel pf (gather_root pf args) (ignoredDirectories ?prm)
               sig (chunkSize ?prm) (expandSymbolicLink ?prm)
        else Some ([], None, 0)"
    have st1: "gather_buffer dn pf args \<lparr> rs_seen = {}, rs_queue = [], rs_console = [] \<rparr> =
          (None, \<lparr> rs_seen = s1, rs_queue = (if bufItems = [] then [] else [bufItems]), rs_console = [] \<rparr>)"
      by (simp add: gather_buffer_shape B Inr cong: if_cong)
    have st2: "gather_mr dn args \<lparr> rs_seen = s1, rs_queue = (if bufItems = [] then [] else [bufItems]), rs_console = [] \<rparr>
         = \<lparr> rs_seen = s2, rs_queue = (if bufItems = [] then [] else [bufItems]) @ (if mrItems = [] then [] else [mrItems]), rs_console = msgs \<rparr>"
      by (simp add: gather_mr_shape M cong: if_cong)
    have g': "(case gather_rec fuel pf args sig
                  \<lparr> rs_seen = s2, rs_queue = (if bufItems = [] then [] else [bufItems]) @ (if mrItems = [] then [] else [mrItems]), rs_console = msgs \<rparr> of
                None \<Rightarrow> None
              | Some (thrown, st3, clk) \<Rightarrow> Some (gather_finish thrown st3 clk)) = Some res"
      using g by (simp add: gather_def st1 st2)
    then obtain r where W: "?W = Some r"
      by (cases ?W) (simp_all add: gather_rec_shape cong: if_cong)
    obtain chunks th k where r: "r = (chunks, th, k)" by (cases r) auto
    have "res = gather_finish th
             \<lparr> rs_seen = rec_seen (rec_run ?prm s2 chunks),
               rs_queue = (if bufItems = [] then [] else [bufItems]) @ (if mrItems = [] then [] else [mrItems])
                  @ rec_queue (rec_run ?prm s2 chunks)
                  @ (if th = None \<and> pendingItems (rec_run ?prm s2 chunks) \<noteq> []
                     then [pendingItems (rec_run ?prm s2 chunks)] else []),
               rs_console = msgs \<rparr> k"
      using g' by (simp add: gather_rec_shape W r cong: if_cong)
    then have "delivered res =
         (if bufItems = [] then [] else [bufItems]) @ (if mrItems = [] then [] else [mrItems])
         @ rec_queue (rec_run ?prm s2 chunks)
         @ (if th = None \<and> pendingItems (rec_run ?prm s2 chunks) \<noteq> []
            then [pendingItems (rec_run ?prm s2 chunks)] else [])"
      and "logged res = msgs @ (case th of None \<Rightarrow> [] | Some e \<Rightarrow> if isAbortReason e then [] else [GatherError e])"
      and "reads res = k" and "closed res"
      by (simp_all add: gather_finish_def split: option.splits)
    then show ?thesis
      using ran[of bufItems s1 mrItems s2 msgs chunks th k] B Inr M W r by blast
  qed
qed

lemma rec_run_inv: "emitter_inv (chunkSize prm) (rec_run prm sn chunks)"
  unfolding rec_run_def by (rule emitter_inv_loop) (rule emitter_inv_init)

section \<open>No delivered batch is empty\<close>

text \<open>
  C9.  With a positive chunk size (the configuration the specification allows), no batch
  that the run passes to \<^verbatim>\<open>controller.enqueue\<close> is empty: the batches of the buffer and
  the MRU source are enqueued only when they have items, and the third block enqueues its
  buffer only when it has reached a positive threshold or, at the end, when it is not
  empty.
\<close>

theorem no_empty_batch:
  assumes pos: "0 < chunkSize (sourceParams args)"
    and g: "gather fuel dn pf args sig = Some res"
  shows "[] \<notin> set (delivered res)"
  using g
proof (cases rule: gather_cases)
  case (threw e s)
  then show ?thesis by simp
next
  case (ran bufItems s1 mrItems s2 msgs chunks th k)
  have "[] \<notin> set (rec_queue (rec_run (sourceParams args) s2 chunks))"
    using emitter_inv_nonempty[OF rec_run_inv pos] .
  then show ?thesis
    using ran(4) by auto
qed

text \<open>The run over \<^verbatim>\<open>/w/sub\<close> with the default parameters returns, and none of its batches is empty.\<close>

theorem no_empty_batch_witness:
  "0 < chunkSize (sourceParams (ex_args ''/w/sub'' params))
   \<and> gather 2 ex_denops ex_platform (ex_args ''/w/sub'' params) None \<noteq> None
   \<and> [] \<notin> set (delivered (the (gather 2 ex_denops ex_platform (ex_args ''/w/sub'' params) None)))"
proof -
  have h1: "0 < chunkSize (sourceParams (ex_args ''/w/sub'' params))"
    by (simp add: ex_args_def params_def)
  have h2: "gather 2 ex_denops ex_platform (ex_args ''/w/sub'' params) None \<noteq> None"
    by code_simp
  then have h3: "gather 2 ex_denops ex_platform (ex_args ''/w/sub'' params) None
                 = Some (the (gather 2 ex_denops ex_platform (ex_args ''/w/sub'' params) None))"
    by simp
  show ?thesis
    using h1 h2 no_empty_batch[OF h1 h3] by blast
qed

section \<open>The thresholds of the chunk buffer\<close>

lemma rec_run_out:
  "concat (rec_queue (rec_run prm sn cs)) @ pendingItems (rec_run prm sn cs) = rec_stream prm cs sn"
  unfolding rec_run_def using rec_loop_out[of prm _ cs] by simp




section \<open>Symbolic links in the walk\<close>

lemma readStat_no_expand:
  "readStat pf p False = (case lstat pf p of Inl e \<Rightarrow> None | Inr st \<Rightarrow> Some st)"
  by (simp add: readStat_def split: sum.splits)

text \<open>
  C10.  With \<^verbatim>\<open>expandSymbolicLink\<close> false, an entry that \<^verbatim>\<open>lstat\<close> reports as a
  symbolic link and not as a directory is never recursed into: whatever the recursive
  call \<open>rec\<close> would do, the loop adds the entry to the chunk as a file item whose
  \<^verbatim>\<open>isDirectory\<close> is false and goes on with the remaining entries.  And when \<^verbatim>\<open>lstat\<close>
  never reports an entry as a symbolic link and a directory at once, the test for a
  looped link (\<^verbatim>\<open>isSymlink\<close> and \<^verbatim>\<open>isDirectory\<close> together) can hold only for metadata read
  with \<^verbatim>\<open>expandSymbolicLink\<close> true.
\<close>

theorem unexpanded_symlink_is_a_file:
  assumes noexp: "\<not> wa_expandSymbolicLink wa"
    and ls: "lstat pf (path_join pf dir (entry_name entry)) = Inr st"
    and link: "fi_isSymlink st"
    and nodir: "\<not> fi_isDirectory st"
    and live: "aborted (wa_signal wa) clk = None"
  shows "inner_loop rec pf wa dir (entry # rest) fin chunk clk =
           (if wa_chunkSize wa \<le> int (length chunk) + 1 then
              yield_then [chunk @ [file_item pf (wa_root wa) (path_join pf dir (entry_name entry))]]
                (inner_loop rec pf wa dir rest fin [] (Suc clk))
            else
              inner_loop rec pf wa dir rest fin
                (chunk @ [file_item pf (wa_root wa) (path_join pf dir (entry_name entry))])
                (Suc clk))
         \<and> \<not> isDirectory (action (file_item pf (wa_root wa) (path_join pf dir (entry_name entry))))
         \<and> ((\<forall>q s. lstat pf q = Inr s \<longrightarrow> \<not> (fi_isSymlink s \<and> fi_isDirectory s)) \<longrightarrow>
              (\<forall>q x s. readStat pf q x = Some s \<and> fi_isSymlink s \<and> fi_isDirectory s \<longrightarrow> x))"
proof -
  have rs: "readStat pf (path_join pf dir (entry_name entry)) (wa_expandSymbolicLink wa) = Some st"
    using noexp ls by (simp add: readStat_no_expand)
  have a: "inner_loop rec pf wa dir (entry # rest) fin chunk clk =
           (if wa_chunkSize wa \<le> int (length chunk) + 1 then
              yield_then [chunk @ [file_item pf (wa_root wa) (path_join pf dir (entry_name entry))]]
                (inner_loop rec pf wa dir rest fin [] (Suc clk))
            else
              inner_loop rec pf wa dir rest fin
                (chunk @ [file_item pf (wa_root wa) (path_join pf dir (entry_name entry))])
                (Suc clk))"
    using rs nodir live by simp
  have b: "\<not> isDirectory (action (file_item pf (wa_root wa) (path_join pf dir (entry_name entry))))"
    by (simp add: file_item_def)
  have c: "(\<forall>q s. lstat pf q = Inr s \<longrightarrow> \<not> (fi_isSymlink s \<and> fi_isDirectory s)) \<longrightarrow>
              (\<forall>q x s. readStat pf q x = Some s \<and> fi_isSymlink s \<and> fi_isDirectory s \<longrightarrow> x)"
    by (auto simp: readStat_def split: sum.splits if_splits)
  from a b c show ?thesis by blast
qed

text \<open>In \<^verbatim>\<open>/w\<close> the link \<^verbatim>\<open>loop\<close> to \<^verbatim>\<open>/w\<close> itself is listed as a file.\<close>

theorem unexpanded_symlink_is_a_file_witness:
  "\<not> wa_expandSymbolicLink \<lparr> wa_root = ''/w'', wa_ignoredDirectories = [], wa_signal = None,
         wa_chunkSize = 1000, wa_expandSymbolicLink = False \<rparr>
   \<and> lstat ex_platform (path_join ex_platform ''/w'' (entry_name \<lparr>entry_name = ''loop''\<rparr>))
       = Inr \<lparr> fi_isDirectory = False, fi_isSymlink = True \<rparr>
   \<and> inner_loop (\<lambda>d k. None) ex_platform
        \<lparr> wa_root = ''/w'', wa_ignoredDirectories = [], wa_signal = None,
          wa_chunkSize = 1000, wa_expandSymbolicLink = False \<rparr>
        ''/w'' [\<lparr>entry_name = ''loop''\<rparr>] None [] 0
       = Some ([[file_item ex_platform ''/w'' ''/w/loop'']], None, 2)
   \<and> \<not> (\<exists>q s. readStat ex_platform q False = Some s \<and> fi_isSymlink s \<and> fi_isDirectory s)"
proof -
  let ?wa = "\<lparr> wa_root = ''/w'', wa_ignoredDirectories = [], wa_signal = None,
         wa_chunkSize = 1000, wa_expandSymbolicLink = False \<rparr>"
  let ?st = "\<lparr> fi_isDirectory = False, fi_isSymlink = True \<rparr>"
  have h1: "\<not> wa_expandSymbolicLink ?wa" by simp
  have h2: "lstat ex_platform (path_join ex_platform ''/w'' (entry_name \<lparr>entry_name = ''loop''\<rparr>)) = Inr ?st"
    by (simp add: ex_platform_def ex_dirs_def ex_links_def)
  have h3: "fi_isSymlink ?st" and h4: "\<not> fi_isDirectory ?st" by simp_all
  have h5: "aborted (wa_signal ?wa) 0 = None" by simp
  have h6: "\<forall>q s. lstat ex_platform q = Inr s \<longrightarrow> \<not> (fi_isSymlink s \<and> fi_isDirectory s)"
    by (auto simp: ex_platform_def ex_dirs_def ex_links_def)
  have j: "path_join ex_platform ''/w'' ''loop'' = ''/w/loop''"
    by (simp add: ex_platform_def)
  note t = unexpanded_symlink_is_a_file[OF h1 h2 h3 h4 h5, of "\<lambda>d k. None" "[]" None "[]"]
  from t have "inner_loop (\<lambda>d k. None) ex_platform ?wa ''/w'' [\<lparr>entry_name = ''loop''\<rparr>] None [] 0
       = Some ([[file_item ex_platform ''/w'' ''/w/loop'']], None, 2)"
    by (simp add: j yield_then_def)
  moreover from t h6 have "\<not> (\<exists>q s. readStat ex_platform q False = Some s \<and> fi_isSymlink s \<and> fi_isDirectory s)"
    by blast
  ultimately show ?thesis using h1 h2 by blast
qed

text \<open>
  C3.  The walk tests \<^verbatim>\<open>abspath.includes(realPath)\<close>, which holds wherever the real path
  occurs in the path, not only at its start.  The link \<^verbatim>\<open>/w/data/ext\<close> leads to the
  directory \<^verbatim>\<open>/data\<close>; \<^verbatim>\<open>/data\<close> is not a prefix of \<^verbatim>\<open>/w/data/ext\<close> but occurs in it, so
  with \<^verbatim>\<open>expandSymbolicLink\<close> true the walk over \<^verbatim>\<open>/w/data\<close> skips the link and yields
  nothing, while the same link with a real path that does not occur in the path is
  entered and its file \<^verbatim>\<open>f.txt\<close> is listed.
\<close>

theorem symlink_to_other_directory_is_skipped:
  "readStat ex_platform ''/w/data/ext'' True = Some \<lparr> fi_isDirectory = True, fi_isSymlink = True \<rparr>
   \<and> realPath ex_platform ''/w/data/ext'' = Inr ''/data''
   \<and> \<not> startsWith ''/w/data/ext'' ''/data''
   \<and> str_includes ''/w/data/ext'' ''/data''
   \<and> walkFiles 3 ex_platform ''/w/data'' [] None 1000 True = Some ([], None, 2)
   \<and> walkFiles 3 (ex_platform\<lparr> realPath := (\<lambda>p. Inr ''/elsewhere'') \<rparr>) ''/w/data'' [] None 1000 True
       = Some ([[file_item ex_platform ''/w/data'' ''/w/data/ext/f.txt'']], None, 4)"
proof -
  have a: "readStat ex_platform ''/w/data/ext'' True = Some \<lparr> fi_isDirectory = True, fi_isSymlink = True \<rparr>"
    by (simp add: readStat_def ex_platform_def ex_dirs_def ex_links_def)
  have b: "realPath ex_platform ''/w/data/ext'' = Inr ''/data''"
    by (simp add: ex_platform_def)
  have c: "\<not> startsWith ''/w/data/ext'' ''/data''" by simp
  have d: "str_includes ''/w/data/ext'' ''/data''" by simp
  have e: "walkFiles 3 ex_platform ''/w/data'' [] None 1000 True = Some ([], None, 2)"
    by code_simp
  have f: "walkFiles 3 (ex_platform\<lparr> realPath := (\<lambda>p. Inr ''/elsewhere'') \<rparr>) ''/w/data'' [] None 1000 True
       = Some ([[file_item ex_platform ''/w/data'' ''/w/data/ext/f.txt'']], None, 4)"
    by code_simp
  from a b c d e f show ?thesis by blast
qed

section \<open>The walk\<close>

lemma yield_then_Some:
  "yield_then cs r = Some (cs', th, k) \<longleftrightarrow> (\<exists>ds. r = Some (ds, th, k) \<and> cs' = cs @ ds)"
  by (cases r) (auto simp: yield_then_def)

lemma yield_then_None [simp]: "yield_then cs r = None \<longleftrightarrow> r = None"
  by (simp add: yield_then_def)

lemma inner_catch_thrown:
  "inner_catch e clk = (cs, th, k) \<Longrightarrow> cs = [] \<and> k = clk \<and> th \<noteq> Some PermissionDenied \<and> (th = None \<or> th = Some e)"
  by (auto simp: inner_catch_def split: if_splits)

lemma inner_loop_never_PermissionDenied:
  "inner_loop rec pf wa dir es fin chunk clk = Some (cs, th, k) \<Longrightarrow> th \<noteq> Some PermissionDenied"
proof (induction es arbitrary: chunk clk cs)
  case Nil
  then show ?case
    by (auto simp: inner_catch_def split: option.splits if_splits)
next
  case (Cons entry rest)
  then show ?case
    by (auto simp: inner_catch_def yield_then_Some
        split: option.splits if_splits sum.splits bool.splits prod.splits)
qed

lemma inner_never_PermissionDenied:
  "inner fuel pf wa dir clk = Some (cs, th, k) \<Longrightarrow> th \<noteq> Some PermissionDenied"
  by (cases fuel) (auto dest: inner_loop_never_PermissionDenied)



lemma inner_loop_items:
  assumes rec: "\<And>d c cs th k. rec d c = Some (cs, th, k) \<Longrightarrow> \<forall>x \<in> set (concat cs). walk_item pf (wa_root wa) x"
  shows "inner_loop rec pf wa dir es fin chunk clk = Some (cs, th, k) \<Longrightarrow>
         \<forall>x \<in> set chunk. walk_item pf (wa_root wa) x \<Longrightarrow>
         \<forall>x \<in> set (concat cs). walk_item pf (wa_root wa) x"
proof (induction es arbitrary: chunk clk cs)
  case Nil
  then show ?case
    by (auto simp: inner_catch_def split: option.splits if_splits)
next
  case (Cons entry rest)
  have new: "walk_item pf (wa_root wa) (file_item pf (wa_root wa) (path_join pf dir (entry_name entry)))"
    unfolding walk_item_def by blast
  show ?case
    using Cons.prems new
    by (auto simp: inner_catch_def yield_then_Some
        split: option.splits if_splits sum.splits bool.splits prod.splits
        dest!: Cons.IH rec)
qed


lemma aborted_Some_iff: "aborted (Some (t, r)) c = Some r' \<longleftrightarrow> t \<le> c \<and> r' = r"
  by auto

lemma aborted_None_iff: "aborted (Some (t, r)) c = None \<longleftrightarrow> c < t"
  by auto






section \<open>Cancelling the walk\<close>

lemma cut_same: "k \<le> t \<Longrightarrow> cut t r (cs, th, k) (cs, th, k)"
  by (simp add: cut_def)

lemma cut_thrown: "t < k \<Longrightarrow> prefix cs' cs \<Longrightarrow> cut t r (cs, th, k) (cs', Some r, k')"
  by (simp add: cut_def)

lemma cut_yield:
  "cut t r (cs, th, k) (cs', th', k') \<Longrightarrow> cut t r (c @ cs, th, k) (c @ cs', th', k')"
  by (auto simp: cut_def)









lemma walkFiles_never_PermissionDenied:
  "walkFiles fuel pf root ign sig c x = Some (cs, th, k) \<Longrightarrow> th \<noteq> Some PermissionDenied"
  unfolding walkFiles_def by (rule inner_never_PermissionDenied)





section \<open>Errors while a directory is read\<close>

lemma readStat_readDir_update [simp]: "readStat (pf\<lparr> readDir := f \<rparr>) = readStat pf"
  by (intro ext) (simp add: readStat_def split: sum.splits)

lemma file_item_readDir_update [simp]: "file_item (pf\<lparr> readDir := f \<rparr>) = file_item pf"
  by (intro ext) (simp add: file_item_def)

lemma inner_loop_readDir_update:
  "inner_loop rec (pf\<lparr> readDir := f \<rparr>) wa dir es fin chunk clk = inner_loop rec pf wa dir es fin chunk clk"
proof (induction es arbitrary: chunk clk)
  case Nil
  then show ?case by simp
next
  case (Cons entry rest)
  show ?case
    by (simp add: Cons.IH cong: option.case_cong sum.case_cong bool.case_cong prod.case_cong if_cong)
qed

lemma inner_PermissionDenied_empty:
  assumes pd: "readDir pf d = ([], Some PermissionDenied)"
  shows "inner fuel (pf\<lparr> readDir := (readDir pf)(d := ([], None)) \<rparr>) wa dir clk = inner fuel pf wa dir clk"
proof -
  define pf' where "pf' = pf\<lparr> readDir := (readDir pf)(d := ([], None)) \<rparr>"
  have rd: "readDir pf' dir = (if dir = d then ([], None) else readDir pf dir)" for dir
    by (simp add: pf'_def)
  have lp: "inner_loop rec pf' wa dir es fin chunk clk = inner_loop rec pf wa dir es fin chunk clk"
    for rec dir es fin chunk clk
    unfolding pf'_def by (rule inner_loop_readDir_update)
  have "inner fuel pf' wa dir clk = inner fuel pf wa dir clk"
  proof (induction fuel arbitrary: dir clk)
    case 0
    then show ?case by simp
  next
    case (Suc n)
    have rec: "inner n pf' wa = inner n pf wa"
      by (intro ext) (rule Suc.IH)
    show ?case
    proof (cases "dir = d")
      case True
      then show ?thesis
        using pd by (simp add: rec lp rd inner_catch_def split: option.splits)
    next
      case False
      then show ?thesis
        by (simp add: rec lp rd)
    qed
  qed
  then show ?thesis
    by (simp only: pf'_def)
qed

lemma walkFiles_PermissionDenied_empty:
  assumes "readDir pf d = ([], Some PermissionDenied)"
  shows "walkFiles fuel (pf\<lparr> readDir := (readDir pf)(d := ([], None)) \<rparr>) root ign sig c x
         = walkFiles fuel pf root ign sig c x"
  unfolding walkFiles_def by (rule inner_PermissionDenied_empty[OF assms])

lemma gather_walk_threw:
  assumes g: "gather fuel dn pf args sig = Some res"
    and en: "enableFileRec (sourceParams args)"
    and w: "walkFiles fuel pf (gather_root pf args) (ignoredDirectories (sourceParams args)) sig
              (chunkSize (sourceParams args)) (expandSymbolicLink (sourceParams args))
            = Some (chunks, Some e, k)"
    and b: "fst (gather_buffer dn pf args \<lparr> rs_seen = {}, rs_queue = [], rs_console = [] \<rparr>) = None"
  shows "delivered res =
           rs_queue (gather_mr dn args (snd (gather_buffer dn pf args \<lparr> rs_seen = {}, rs_queue = [], rs_console = [] \<rparr>)))
           @ rec_queue (rec_run (sourceParams args)
               (rs_seen (gather_mr dn args (snd (gather_buffer dn pf args \<lparr> rs_seen = {}, rs_queue = [], rs_console = [] \<rparr>))))
               chunks)
         \<and> logged res =
           rs_console (gather_mr dn args (snd (gather_buffer dn pf args \<lparr> rs_seen = {}, rs_queue = [], rs_console = [] \<rparr>)))
           @ (if isAbortReason e then [] else [GatherError e])
         \<and> closed res"
proof -
  obtain th st1 where gb: "gather_buffer dn pf args \<lparr> rs_seen = {}, rs_queue = [], rs_console = [] \<rparr> = (th, st1)"
    by force
  have th: "th = None" using b gb by simp
  show ?thesis
    using g by (auto simp: gather_def gb th gather_rec_shape en w gather_finish_def)
qed

text \<open>
  C4.  A directory that cannot be opened because permission is denied counts as an empty
  directory: the whole walk is the walk over the file system in which that directory is
  empty, so its parent and its siblings are walked as before; no walk ever throws
  \<^verbatim>\<open>PermissionDenied\<close>; and when the directory iterator throws it after some entries, the
  generator of that directory returns without yielding anything further.  Any other
  exception \<open>e\<close> of the directory iterator is thrown on by the generator; a parent
  whose recursive call for a subdirectory throws \<open>e\<close> throws \<open>e\<close> as well, without
  visiting the remaining entries, whereas after a subdirectory that returned it goes on
  with them; and in \<^verbatim>\<open>gather\<close> the batches enqueued before stay delivered, \<open>e\<close> is
  written to the console (unless it is an abort reason) and the stream is closed.
\<close>

theorem permission_denied_is_local:
  assumes pd: "readDir pf d = ([], Some PermissionDenied)"
    and other: "e \<noteq> PermissionDenied"
    and live: "aborted (wa_signal wa) clk = None"
    and sub: "readStat pf (path_join pf dir (entry_name entry)) (wa_expandSymbolicLink wa) = Some st"
    and isdir: "fi_isDirectory st" and nolink: "\<not> fi_isSymlink st"
    and nign: "entry_name entry \<notin> set (wa_ignoredDirectories wa)"
  shows "walkFiles fuel (pf\<lparr> readDir := (readDir pf)(d := ([], None)) \<rparr>) root ign sig c x
           = walkFiles fuel pf root ign sig c x
       \<and> (\<forall>chunks th k. walkFiles fuel pf root ign sig c x = Some (chunks, th, k)
             \<longrightarrow> th \<noteq> Some PermissionDenied)
       \<and> inner_loop rec pf wa dir [] (Some PermissionDenied) chunk clk = Some ([], None, Suc clk)
       \<and> inner_loop rec pf wa dir [] (Some e) chunk clk = Some ([], Some e, Suc clk)
       \<and> (\<forall>cs k. rec (path_join pf dir (entry_name entry)) (Suc clk) = Some (cs, None, k) \<longrightarrow>
             inner_loop rec pf wa dir (entry # rest) fin chunk clk
               = yield_then cs (inner_loop rec pf wa dir rest fin chunk k))
       \<and> (\<forall>cs k. rec (path_join pf dir (entry_name entry)) (Suc clk) = Some (cs, Some e, k) \<longrightarrow>
             inner_loop rec pf wa dir (entry # rest) fin chunk clk = Some (cs, Some e, k))
       \<and> (\<forall>res chunks k.
             gather fuel dn pf args sig = Some res \<and> enableFileRec (sourceParams args)
             \<and> walkFiles fuel pf (gather_root pf args) (ignoredDirectories (sourceParams args)) sig
                  (chunkSize (sourceParams args)) (expandSymbolicLink (sourceParams args))
                = Some (chunks, Some e, k)
             \<and> fst (gather_buffer dn pf args \<lparr> rs_seen = {}, rs_queue = [], rs_console = [] \<rparr>) = None
             \<longrightarrow>
             delivered res =
               rs_queue (gather_mr dn args (snd (gather_buffer dn pf args \<lparr> rs_seen = {}, rs_queue = [], rs_console = [] \<rparr>)))
               @ rec_queue (rec_run (sourceParams args)
                   (rs_seen (gather_mr dn args (snd (gather_buffer dn pf args \<lparr> rs_seen = {}, rs_queue = [], rs_console = [] \<rparr>))))
                   chunks)
             \<and> logged res =
               rs_console (gather_mr dn args (snd (gather_buffer dn pf args \<lparr> rs_seen = {}, rs_queue = [], rs_console = [] \<rparr>)))
               @ (if isAbortReason e then [] else [GatherError e])
             \<and> closed res)"
proof -
  have 1: "walkFiles fuel (pf\<lparr> readDir := (readDir pf)(d := ([], None)) \<rparr>) root ign sig c x
           = walkFiles fuel pf root ign sig c x"
    by (rule walkFiles_PermissionDenied_empty[OF pd])
  have 2: "\<forall>chunks th k. walkFiles fuel pf root ign sig c x = Some (chunks, th, k)
             \<longrightarrow> th \<noteq> Some PermissionDenied"
    using walkFiles_never_PermissionDenied by blast
  have 3: "inner_loop rec pf wa dir [] (Some PermissionDenied) chunk clk = Some ([], None, Suc clk)"
    using live by (simp add: inner_catch_def)
  have 4: "inner_loop rec pf wa dir [] (Some e) chunk clk = Some ([], Some e, Suc clk)"
    using live other by (simp add: inner_catch_def)
  have 5: "\<forall>cs k. rec (path_join pf dir (entry_name entry)) (Suc clk) = Some (cs, None, k) \<longrightarrow>
             inner_loop rec pf wa dir (entry # rest) fin chunk clk
               = yield_then cs (inner_loop rec pf wa dir rest fin chunk k)"
    using live sub isdir nolink nign by simp
  have 6: "\<forall>cs k. rec (path_join pf dir (entry_name entry)) (Suc clk) = Some (cs, Some e, k) \<longrightarrow>
             inner_loop rec pf wa dir (entry # rest) fin chunk clk = Some (cs, Some e, k)"
    using live sub isdir nolink nign other by (simp add: yield_then_def inner_catch_def)
  have 7: "\<forall>res chunks k.
             gather fuel dn pf args sig = Some res \<and> enableFileRec (sourceParams args)
             \<and> walkFiles fuel pf (gather_root pf args) (ignoredDirectories (sourceParams args)) sig
                  (chunkSize (sourceParams args)) (expandSymbolicLink (sourceParams args))
                = Some (chunks, Some e, k)
             \<and> fst (gather_buffer dn pf args \<lparr> rs_seen = {}, rs_queue = [], rs_console = [] \<rparr>) = None
             \<longrightarrow>
             delivered res =
               rs_queue (gather_mr dn args (snd (gather_buffer dn pf args \<lparr> rs_seen = {}, rs_queue = [], rs_console = [] \<rparr>)))
               @ rec_queue (rec_run (sourceParams args)
                   (rs_seen (gather_mr dn args (snd (gather_buffer dn pf args \<lparr> rs_seen = {}, rs_queue = [], rs_console = [] \<rparr>))))
                   chunks)
             \<and> logged res =
               rs_console (gather_mr dn args (snd (gather_buffer dn pf args \<lparr> rs_seen = {}, rs_queue = [], rs_console = [] \<rparr>)))
               @ (if isAbortReason e then [] else [GatherError e])
             \<and> closed res"
    using gather_walk_threw by blast
  from 1 2 3 4 5 6 7 show ?thesis by blast
qed

text \<open>
  \<^verbatim>\<open>/w/locked\<close> cannot be read and is walked like an empty directory; reading
  \<^verbatim>\<open>/x/bad\<close> fails with another error, which ends the walk over \<^verbatim>\<open>/x\<close> before
  \<^verbatim>\<open>z.txt\<close> is visited and is reported by \<^verbatim>\<open>gather\<close>.
\<close>

theorem permission_denied_is_local_witness:
  "readDir ex_platform ''/w/locked'' = ([], Some PermissionDenied)
   \<and> Error ''Error'' \<noteq> PermissionDenied
   \<and> aborted (wa_signal \<lparr> wa_root = ''/x'', wa_ignoredDirectories = [], wa_signal = None,
         wa_chunkSize = 1000, wa_expandSymbolicLink = False \<rparr>) 0 = None
   \<and> readStat ex_platform (path_join ex_platform ''/x'' (entry_name \<lparr> entry_name = ''bad'' \<rparr>)) False
       = Some \<lparr> fi_isDirectory = True, fi_isSymlink = False \<rparr>
   \<and> walkFiles 2 (ex_platform\<lparr> readDir := (readDir ex_platform)(''/w/locked'' := ([], None)) \<rparr>)
         ''/w/locked'' [] None 1000 False
       = walkFiles 2 ex_platform ''/w/locked'' [] None 1000 False
   \<and> walkFiles 2 ex_platform ''/w/locked'' [] None 1000 False = Some ([], None, 1)
   \<and> inner_loop
         (inner 1 ex_platform \<lparr> wa_root = ''/x'', wa_ignoredDirectories = [], wa_signal = None,
             wa_chunkSize = 1000, wa_expandSymbolicLink = False \<rparr>)
         ex_platform
         \<lparr> wa_root = ''/x'', wa_ignoredDirectories = [], wa_signal = None,
           wa_chunkSize = 1000, wa_expandSymbolicLink = False \<rparr>
         ''/x'' [\<lparr> entry_name = ''bad'' \<rparr>, \<lparr> entry_name = ''z.txt'' \<rparr>] None [] 0
       = Some ([], Some (Error ''Error''), 2)
   \<and> map_option logged (gather 2 ex_denops ex_platform (ex_args ''/x'' params) None)
       = Some [GatherError (Error ''Error'')]"
proof -
  let ?W = "\<lparr> wa_root = ''/x'', wa_ignoredDirectories = [], wa_signal = None,
             wa_chunkSize = 1000, wa_expandSymbolicLink = False \<rparr>"
  let ?st = "\<lparr> fi_isDirectory = True, fi_isSymlink = False \<rparr>"
  let ?bad = "\<lparr> entry_name = ''bad'' \<rparr>"
  let ?A = "ex_args ''/x'' params"
  let ?S0 = "\<lparr> rs_seen = {}, rs_queue = [], rs_console = [] \<rparr>"
  have h1: "readDir ex_platform ''/w/locked'' = ([], Some PermissionDenied)"
    by (simp add: ex_platform_def ex_readDir_def)
  have h2: "Error ''Error'' \<noteq> PermissionDenied" by simp
  have h3: "aborted (wa_signal ?W) 0 = None" by simp
  have h4: "readStat ex_platform (path_join ex_platform ''/x'' (entry_name ?bad)) (wa_expandSymbolicLink ?W) = Some ?st"
    by (simp add: readStat_def ex_platform_def ex_dirs_def ex_links_def)
  have h5: "fi_isDirectory ?st" and h6: "\<not> fi_isSymlink ?st" by simp_all
  have h7: "entry_name ?bad \<notin> set (wa_ignoredDirectories ?W)" by simp
  note t = permission_denied_is_local[OF h1 h2 h3 h4 h5 h6 h7,
      where fuel = 2 and root = "''/w/locked''" and ign = "[]" and sig = None and c = 1000 and x = False
        and rec = "inner 1 ex_platform ?W" and rest = "[\<lparr> entry_name = ''z.txt'' \<rparr>]"
        and fin = None and chunk = "[]" and dn = ex_denops and args = ?A]
  have r: "inner 1 ex_platform ?W (path_join ex_platform ''/x'' (entry_name ?bad)) (Suc 0)
           = Some ([], Some (Error ''Error''), 2)"
    by code_simp
  have w: "walkFiles 2 ex_platform (gather_root ex_platform ?A) (ignoredDirectories (sourceParams ?A)) None
             (chunkSize (sourceParams ?A)) (expandSymbolicLink (sourceParams ?A))
           = Some ([], Some (Error ''Error''), 2)"
    by code_simp
  have g: "gather 2 ex_denops ex_platform ?A None
           = Some (the (gather 2 ex_denops ex_platform ?A None))"
    by code_simp
  have en: "enableFileRec (sourceParams ?A)"
    by (simp add: ex_args_def params_def)
  have b: "fst (gather_buffer ex_denops ex_platform ?A ?S0) = None"
    by code_simp
  have c0: "rs_console (gather_mr ex_denops ?A (snd (gather_buffer ex_denops ex_platform ?A ?S0))) = []"
    by code_simp
  have na: "\<not> isAbortReason (Error ''Error'')"
    by (simp add: isAbortReason_def)
  have l: "logged (the (gather 2 ex_denops ex_platform ?A None)) = [GatherError (Error ''Error'')]"
    using t g en w b c0 na by simp
  have c1: "walkFiles 2 (ex_platform\<lparr> readDir := (readDir ex_platform)(''/w/locked'' := ([], None)) \<rparr>)
         ''/w/locked'' [] None 1000 False
       = walkFiles 2 ex_platform ''/w/locked'' [] None 1000 False"
    using t by blast
  have c2: "walkFiles 2 ex_platform ''/w/locked'' [] None 1000 False = Some ([], None, 1)"
    by code_simp
  have c3: "inner_loop (inner 1 ex_platform ?W) ex_platform ?W ''/x''
              [?bad, \<lparr> entry_name = ''z.txt'' \<rparr>] None [] 0
            = Some ([], Some (Error ''Error''), 2)"
    using t r by blast
  have c4: "map_option logged (gather 2 ex_denops ex_platform ?A None)
       = Some [GatherError (Error ''Error'')]"
    using g l by (metis option.simps(9))
  from h1 h2 h3 h4 c1 c2 c3 c4 show ?thesis by simp
qed

section \<open>Cancellation\<close>




section \<open>The iterations of the buffer source and the MRU source\<close>

lemma DedupKey_mr_item [simp]: "DedupKey (mr_item kind sp p) = normalizePath p"
  by (simp add: DedupKey_def mr_item_def makeItem_def Let_def)

lemma DedupKey_buffer_item [simp]: "DedupKey (buffer_item pf info bn sp b) = normalizePath (name b)"
  by (simp add: DedupKey_def buffer_item_def makeItem_def Let_def)

lemma DedupKey_rec_prefix [simp]: "DedupKey (rec_prefix i) = DedupKey i"
  by (simp add: DedupKey_def rec_prefix_def)

lemma set_sort_insert [simp]: "set (sort_insert cmp x ys) = insert x (set ys)"
  by (induction ys) auto

lemma set_js_sort [simp]: "set (js_sort cmp xs) = set xs"
  unfolding js_sort_def by (induction xs) auto

lemma gatherMr_loop_no_dedup:
  "gatherMr_loop kind False sp ps sn items = (items @ map (mr_item kind sp) ps, sn)"
  by (induction ps arbitrary: items) (simp_all add: mr_item_def)

lemma gatherMr_loop_dedup:
  "gatherMr_loop kind True sp ps sn items = (out, s') \<Longrightarrow>
   \<exists>new. out = items @ new \<and> set new \<subseteq> mr_item kind sp ` set ps
        \<and> distinct (map DedupKey new) \<and> DedupKey ` set new \<inter> sn = {}
        \<and> s' = sn \<union> normalizePath ` set ps \<and> DedupKey ` set new \<subseteq> s'"
proof (induction ps arbitrary: sn items out s')
  case Nil
  then show ?case by simp
next
  case (Cons p ps)
  show ?case
  proof (cases "normalizePath p \<in> sn")
    case True
    then have "gatherMr_loop kind True sp ps sn items = (out, s')"
      using Cons.prems by simp
    from Cons.IH[OF this] True show ?thesis
      by (auto simp: insert_absorb)
  next
    case False
    then have "gatherMr_loop kind True sp ps (insert (normalizePath p) sn) (items @ [mr_item kind sp p]) = (out, s')"
      using Cons.prems by (simp add: mr_item_def)
    from Cons.IH[OF this] obtain new where
      n: "out = (items @ [mr_item kind sp p]) @ new" "set new \<subseteq> mr_item kind sp ` set ps"
         "distinct (map DedupKey new)" "DedupKey ` set new \<inter> insert (normalizePath p) sn = {}"
         "s' = insert (normalizePath p) sn \<union> normalizePath ` set ps" "DedupKey ` set new \<subseteq> s'"
      by blast
    show ?thesis
    proof (intro exI[of _ "mr_item kind sp p # new"] conjI)
      show "out = items @ mr_item kind sp p # new" using n(1) by simp
      show "set (mr_item kind sp p # new) \<subseteq> mr_item kind sp ` set (p # ps)" using n(2) by auto
      show "distinct (map DedupKey (mr_item kind sp p # new))" using n(3,4) by auto
      show "DedupKey ` set (mr_item kind sp p # new) \<inter> sn = {}" using n(4) False by auto
      show "s' = sn \<union> normalizePath ` set (p # ps)" using n(5) by auto
      show "DedupKey ` set (mr_item kind sp p # new) \<subseteq> s'" using n(5,6) by auto
    qed
  qed
qed

lemma gatherBuffer_loop_item:
  "makeItem (buffer_word pf (currentDir info) bn (alternateBufNr info) b) (name b) ''buf'' sp False
   = buffer_item pf info bn sp b"
  by (simp add: buffer_item_def)

lemma buffer_kept_iff:
  "getbufvar_buftype dn (bufnr b) = Inr v \<Longrightarrow>
   buffer_kept dn b \<longleftrightarrow> name b \<noteq> '''' \<and> (case v of JString s \<Rightarrow> s | _ \<Rightarrow> '''') \<noteq> ''terminal''"
  by (cases v) (auto simp: buffer_kept_def)


lemma gatherBuffer_loop_origin:
  "gatherBuffer_loop dn pf (currentDir info) bn (alternateBufNr info) dd sp bufs sn items = (Inr out, s') \<Longrightarrow>
   \<exists>new. out = items @ new \<and> set new \<subseteq> buffer_item pf info bn sp ` {b \<in> set bufs. buffer_kept dn b}"
proof (induction bufs arbitrary: sn items)
  case Nil
  then show ?case by simp
next
  case (Cons b bufs)
  show ?case
  proof (cases "name b = ''''")
    case True
    then show ?thesis using Cons.prems Cons.IH[of sn items] by auto
  next
    case False
    then obtain v where v: "getbufvar_buftype dn (bufnr b) = Inr v"
      using Cons.prems by (cases "getbufvar_buftype dn (bufnr b)") auto
    note k = buffer_kept_iff[OF v]
    show ?thesis
    proof (cases "(case v of JString s \<Rightarrow> s | _ \<Rightarrow> '''') = ''terminal''")
      case True
      then show ?thesis using Cons.prems False v Cons.IH[of sn items] by auto
    next
      case nt: False
      show ?thesis
      proof (cases "dd \<and> normalizePath (name b) \<in> sn")
        case True
        then show ?thesis using Cons.prems False v nt Cons.IH[of sn items] by auto
      next
        case nd: False
        then have "gatherBuffer_loop dn pf (currentDir info) bn (alternateBufNr info) dd sp bufs
                     (if dd then insert (normalizePath (name b)) sn else sn)
                     (items @ [buffer_item pf info bn sp b]) = (Inr out, s')"
          using Cons.prems False v nt by (auto simp: gatherBuffer_loop_item)
        from Cons.IH[OF this] obtain new where
          "out = (items @ [buffer_item pf info bn sp b]) @ new"
          "set new \<subseteq> buffer_item pf info bn sp ` {b \<in> set bufs. buffer_kept dn b}"
          by blast
        then show ?thesis
          using k False nt
          by (intro exI[of _ "buffer_item pf info bn sp b # new"]) auto
      qed
    qed
  qed
qed

lemma gatherBuffer_loop_dedup:
  "gatherBuffer_loop dn pf (currentDir (info :: GetBufInfoReturn)) bn (alternateBufNr info) True sp bufs sn items = (Inr out, s') \<Longrightarrow>
   \<exists>new. out = items @ new
        \<and> distinct (map DedupKey new) \<and> DedupKey ` set new \<inter> sn = {}
        \<and> s' = sn \<union> (\<lambda>b. normalizePath (name b)) ` {b \<in> set bufs. buffer_kept dn b}
        \<and> DedupKey ` set new \<subseteq> s'"
proof (induction bufs arbitrary: sn items)
  case Nil
  then show ?case by simp
next
  case (Cons b bufs)
  show ?case
  proof (cases "name b = ''''")
    case True
    then show ?thesis using Cons.prems Cons.IH[of sn items] by (auto simp: buffer_kept_def)
  next
    case False
    then obtain v where v: "getbufvar_buftype dn (bufnr b) = Inr v"
      using Cons.prems by (cases "getbufvar_buftype dn (bufnr b)") auto
    note k = buffer_kept_iff[OF v]
    show ?thesis
    proof (cases "(case v of JString s \<Rightarrow> s | _ \<Rightarrow> '''') = ''terminal''")
      case True
      then have "gatherBuffer_loop dn pf (currentDir info) bn (alternateBufNr info) True sp bufs sn items = (Inr out, s')"
        using Cons.prems False v by auto
      from Cons.IH[OF this] show ?thesis using k True by auto
    next
      case nt: False
      then have kb: "buffer_kept dn b" using k False by simp
      show ?thesis
      proof (cases "normalizePath (name b) \<in> sn")
        case True
        then have "gatherBuffer_loop dn pf (currentDir info) bn (alternateBufNr info) True sp bufs sn items = (Inr out, s')"
          using Cons.prems False v nt by auto
        from Cons.IH[OF this] obtain new where n: "out = items @ new"
          "distinct (map DedupKey new)" "DedupKey ` set new \<inter> sn = {}"
          "s' = sn \<union> (\<lambda>b. normalizePath (name b)) ` {b \<in> set bufs. buffer_kept dn b}"
          "DedupKey ` set new \<subseteq> s'" by blast
        have "s' = sn \<union> (\<lambda>b. normalizePath (name b)) ` {x \<in> set (b # bufs). buffer_kept dn x}"
          using n(4) True by auto
        then show ?thesis using n by blast
      next
        case nd: False
        then have "gatherBuffer_loop dn pf (currentDir info) bn (alternateBufNr info) True sp bufs
                     (insert (normalizePath (name b)) sn)
                     (items @ [buffer_item pf info bn sp b]) = (Inr out, s')"
          using Cons.prems False v nt by (auto simp: gatherBuffer_loop_item)
        from Cons.IH[OF this] obtain new where n:
          "out = (items @ [buffer_item pf info bn sp b]) @ new"
          "distinct (map DedupKey new)" "DedupKey ` set new \<inter> insert (normalizePath (name b)) sn = {}"
          "s' = insert (normalizePath (name b)) sn \<union> (\<lambda>b. normalizePath (name b)) ` {b \<in> set bufs. buffer_kept dn b}"
          "DedupKey ` set new \<subseteq> s'"
          by blast
        show ?thesis
        proof (intro exI[of _ "buffer_item pf info bn sp b # new"] conjI)
          show "out = items @ buffer_item pf info bn sp b # new" using n(1) by simp
          show "distinct (map DedupKey (buffer_item pf info bn sp b # new))" using n(2,3) by auto
          show "DedupKey ` set (buffer_item pf info bn sp b # new) \<inter> sn = {}" using n(3) nd by auto
          show "s' = sn \<union> (\<lambda>b. normalizePath (name b)) ` {x \<in> set (b # bufs). buffer_kept dn x}"
            using n(4) kb by auto
          show "DedupKey ` set (buffer_item pf info bn sp b # new) \<subseteq> s'" using n(4,5) by auto
        qed
      qed
    qed
  qed
qed

lemma gatherMr_loop_origin:
  "gatherMr_loop kind dd sp ps sn items = (out, s') \<Longrightarrow>
   \<exists>new. out = items @ new \<and> set new \<subseteq> mr_item kind sp ` set ps"
proof (cases dd)
  case True
  assume "gatherMr_loop kind dd sp ps sn items = (out, s')"
  then have "gatherMr_loop kind True sp ps sn items = (out, s')" using True by simp
  from gatherMr_loop_dedup[OF this] show ?thesis by blast
next
  case False
  assume "gatherMr_loop kind dd sp ps sn items = (out, s')"
  then show ?thesis using False by (auto simp: gatherMr_loop_no_dedup)
qed

section \<open>The three blocks of a run\<close>

lemma buffer_phase_info:
  assumes "(if enableBuffer (sourceParams args)
        then gatherBuffer dn pf (bufNr (gather_context args)) (bufferOrderby (sourceParams args)) {}
               (dedup (sourceParams args)) (showSourcePrefix (sourceParams args))
        else (Inr [], {})) = (Inr bufItems, s1)"
  shows "(\<not> enableBuffer (sourceParams args) \<and> bufItems = [] \<and> s1 = {})
       \<or> (\<exists>info. enableBuffer (sourceParams args) \<and> getbufinfo dn = Inr info
             \<and> gatherBuffer_loop dn pf (currentDir info) (bufNr (gather_context args)) (alternateBufNr info)
                  (dedup (sourceParams args)) (showSourcePrefix (sourceParams args))
                  (js_sort (buffer_cmp (bufferOrderby (sourceParams args)) (bufNr (gather_context args)))
                     (filter listed (buffers info))) {} [] = (Inr bufItems, s1))"
  using assms by (auto simp: gatherBuffer_def split: if_splits sum.splits)

lemma buffer_phase_origin:
  assumes "(if enableBuffer (sourceParams args)
        then gatherBuffer dn pf (bufNr (gather_context args)) (bufferOrderby (sourceParams args)) {}
               (dedup (sourceParams args)) (showSourcePrefix (sourceParams args))
        else (Inr [], {})) = (Inr bufItems, s1)"
  shows "\<forall>i \<in> set bufItems. buffer_origin dn pf args i"
  using buffer_phase_info[OF assms]
proof (elim disjE exE conjE)
  assume "bufItems = []"
  then show ?thesis by simp
next
  fix info
  assume i: "getbufinfo dn = Inr info"
    and l: "gatherBuffer_loop dn pf (currentDir info) (bufNr (gather_context args)) (alternateBufNr info)
                  (dedup (sourceParams args)) (showSourcePrefix (sourceParams args))
                  (js_sort (buffer_cmp (bufferOrderby (sourceParams args)) (bufNr (gather_context args)))
                     (filter listed (buffers info))) {} [] = (Inr bufItems, s1)"
  from gatherBuffer_loop_origin[OF l] show ?thesis
    using i by (auto simp: buffer_origin_def)
qed

lemma buffer_phase_dedup:
  assumes dd: "dedup (sourceParams args)"
    and b: "(if enableBuffer (sourceParams args)
        then gatherBuffer dn pf (bufNr (gather_context args)) (bufferOrderby (sourceParams args)) {}
               (dedup (sourceParams args)) (showSourcePrefix (sourceParams args))
        else (Inr [], {})) = (Inr bufItems, s1)"
  shows "distinct (map DedupKey bufItems) \<and> DedupKey ` set bufItems \<subseteq> s1 \<and> s1 = buffer_keys dn args"
  using buffer_phase_info[OF b]
proof (elim disjE exE conjE)
  assume "\<not> enableBuffer (sourceParams args)" "bufItems = []" "s1 = {}"
  then show ?thesis by (simp add: buffer_keys_def)
next
  fix info
  assume en: "enableBuffer (sourceParams args)" and i: "getbufinfo dn = Inr info"
    and l: "gatherBuffer_loop dn pf (currentDir info) (bufNr (gather_context args)) (alternateBufNr info)
                  (dedup (sourceParams args)) (showSourcePrefix (sourceParams args))
                  (js_sort (buffer_cmp (bufferOrderby (sourceParams args)) (bufNr (gather_context args)))
                     (filter listed (buffers info))) {} [] = (Inr bufItems, s1)"
  from gatherBuffer_loop_dedup[OF l[unfolded dd[THEN eqTrueI]]] show ?thesis
    using en i by (auto simp: buffer_keys_def)
qed


lemma mr_phase_origin:
  assumes "(if enableMr (sourceParams args)
        then gatherMr dn (mrKind (sourceParams args)) s1
               (dedup (sourceParams args)) (showSourcePrefix (sourceParams args))
        else ([], s1, [])) = (mrItems, s2, msgs)"
  shows "\<forall>i \<in> set mrItems. mr_origin dn args i"
proof (cases "enableMr (sourceParams args)")
  case False
  then show ?thesis using assms by simp
next
  case True
  show ?thesis
  proof (cases "mr_call dn (mrKind (sourceParams args))")
    case (Inl e)
    then show ?thesis using assms True by (simp add: gatherMr_def)
  next
    case (Inr result)
    then have "gatherMr_loop (mrKind (sourceParams args)) (dedup (sourceParams args))
                 (showSourcePrefix (sourceParams args)) result s1 [] = (mrItems, s2)"
      using assms True by (auto simp: gatherMr_def split: prod.splits)
    from gatherMr_loop_origin[OF this] show ?thesis
      using Inr by (auto simp: mr_origin_def)
  qed
qed

lemma mr_phase_dedup:
  assumes dd: "dedup (sourceParams args)"
    and m: "(if enableMr (sourceParams args)
        then gatherMr dn (mrKind (sourceParams args)) s1
               (dedup (sourceParams args)) (showSourcePrefix (sourceParams args))
        else ([], s1, [])) = (mrItems, s2, msgs)"
  shows "distinct (map DedupKey mrItems) \<and> DedupKey ` set mrItems \<inter> s1 = {}
       \<and> DedupKey ` set mrItems \<subseteq> s2 \<and> s2 = s1 \<union> mr_keys dn args"
proof (cases "enableMr (sourceParams args)")
  case False
  then show ?thesis using m by (simp add: mr_keys_def)
next
  case True
  show ?thesis
  proof (cases "mr_call dn (mrKind (sourceParams args))")
    case (Inl e)
    then show ?thesis using m True by (simp add: gatherMr_def mr_keys_def)
  next
    case (Inr result)
    then have "gatherMr_loop (mrKind (sourceParams args)) True
                 (showSourcePrefix (sourceParams args)) result s1 [] = (mrItems, s2)"
      using m True dd by (auto simp: gatherMr_def split: prod.splits)
    from gatherMr_loop_dedup[OF this] show ?thesis
      using Inr True by (auto simp: mr_keys_def)
  qed
qed


section \<open>The filter of the third block\<close>

lemma seen_filter_fst_subset: "set (fst (seen_filter chunk sn)) \<subseteq> set chunk"
proof (induction chunk arbitrary: sn)
  case Nil
  then show ?case by simp
next
  case (Cons i chunk)
  have a: "set (fst (seen_filter chunk sn)) \<subseteq> set chunk"
    and b: "set (fst (seen_filter chunk (insert (normalizePath (path (action i))) sn))) \<subseteq> set chunk"
    using Cons by blast+
  show ?case
    using a b by (auto split: prod.splits)
qed

lemma seen_filter_subset: "seen_filter chunk sn = (xs, s') \<Longrightarrow> set xs \<subseteq> set chunk"
  using seen_filter_fst_subset[of chunk sn] by simp

lemma seen_filter_dedup:
  assumes "\<forall>i \<in> set chunk. path (action i) \<noteq> ''''"
  shows "seen_filter chunk sn = (xs, s') \<Longrightarrow>
         distinct (map DedupKey xs) \<and> DedupKey ` set xs \<inter> sn = {}
         \<and> DedupKey ` set xs \<subseteq> s' \<and> sn \<subseteq> s'"
  using assms
proof (induction chunk arbitrary: sn xs s')
  case Nil
  then show ?case by simp
next
  case (Cons i chunk)
  have ne: "path (action i) \<noteq> ''''" and rest: "\<forall>i \<in> set chunk. path (action i) \<noteq> ''''"
    using Cons.prems(2) by simp_all
  show ?case
  proof (cases "normalizePath (path (action i)) \<in> sn")
    case True
    then have "seen_filter chunk sn = (xs, s')" using Cons.prems(1) ne by simp
    from Cons.IH[OF this rest] show ?thesis .
  next
    case False
    then have F: "DedupKey i \<notin> sn" by (simp add: DedupKey_def)
    from False obtain ys where ys: "seen_filter chunk (insert (DedupKey i) sn) = (ys, s')" and xs: "xs = i # ys"
      using Cons.prems(1) ne by (auto simp: DedupKey_def split: prod.splits)
    from Cons.IH[OF ys rest] have
      "distinct (map DedupKey ys)" "DedupKey ` set ys \<inter> insert (DedupKey i) sn = {}"
      "DedupKey ` set ys \<subseteq> s'" "insert (DedupKey i) sn \<subseteq> s'"
      by auto
    then show ?thesis
      using xs F by auto
  qed
qed

lemma rec_filter_subset:
  "set (fst (rec_filter prm chunk sn)) \<subseteq> rec_decorate (showSourcePrefix prm) ` set chunk"
  using seen_filter_subset[of chunk sn]
  by (auto simp: rec_filter_def rec_decorate_def split: prod.splits)


lemma DedupKey_rec_decorate [simp]: "DedupKey (rec_decorate sp i) = DedupKey i"
  by (simp add: rec_decorate_def)

lemma rec_filter_dedup:
  assumes "dedup prm" "\<forall>i \<in> set chunk. path (action i) \<noteq> ''''"
  shows "distinct (map DedupKey (fst (rec_filter prm chunk sn)))
       \<and> DedupKey ` set (fst (rec_filter prm chunk sn)) \<inter> sn = {}
       \<and> DedupKey ` set (fst (rec_filter prm chunk sn)) \<subseteq> snd (rec_filter prm chunk sn)
       \<and> sn \<subseteq> snd (rec_filter prm chunk sn)"
proof -
  obtain xs s' where f: "seen_filter chunk sn = (xs, s')" by force
  note d = seen_filter_dedup[OF assms(2) f]
  have c: "DedupKey \<circ> rec_prefix = DedupKey"
    by (simp add: fun_eq_iff)
  have i: "DedupKey ` rec_prefix ` set xs = DedupKey ` set xs"
    by (simp add: image_image)
  show ?thesis
    using d assms(1) f unfolding rec_filter_def
    by (simp add: c i)
qed


lemma rec_stream_subset:
  "set (rec_stream prm chunks sn) \<subseteq> rec_decorate (showSourcePrefix prm) ` set (concat chunks)"
proof (induction chunks arbitrary: sn)
  case Nil
  then show ?case by simp
next
  case (Cons c cs)
  show ?case
    using rec_filter_subset[of prm c sn] Cons[of "snd (rec_filter prm c sn)"]
    by (auto simp: image_Un)
qed

lemma rec_stream_dedup:
  assumes dd: "dedup prm"
  shows "\<forall>i \<in> set (concat chunks). path (action i) \<noteq> '''' \<Longrightarrow>
         distinct (map DedupKey (rec_stream prm chunks sn))
         \<and> DedupKey ` set (rec_stream prm chunks sn) \<inter> sn = {}"
proof (induction chunks arbitrary: sn)
  case Nil
  then show ?case by simp
next
  case (Cons c cs)
  have c: "\<forall>i \<in> set c. path (action i) \<noteq> ''''" and cs: "\<forall>i \<in> set (concat cs). path (action i) \<noteq> ''''"
    using Cons.prems by simp_all
  note f = rec_filter_dedup[OF dd c, of sn]
  note r = Cons.IH[OF cs, of "snd (rec_filter prm c sn)"]
  show ?case
    using f r by (auto simp: disjoint_iff)
qed

lemma inner_items:
  "inner fuel pf wa dir clk = Some (cs, th, k) \<Longrightarrow> \<forall>x \<in> set (concat cs). walk_item pf (wa_root wa) x"
proof (induction fuel arbitrary: dir clk cs th k)
  case 0
  then show ?case by simp
next
  case (Suc n)
  have rec: "\<And>d c cs th k. inner n pf wa d c = Some (cs, th, k) \<Longrightarrow>
               \<forall>x \<in> set (concat cs). walk_item pf (wa_root wa) x"
    by (rule Suc.IH)
  show ?case
    using inner_loop_items[where rec = "inner n pf wa" and pf = pf and wa = wa, OF rec,
        where dir = dir and es = "fst (readDir pf dir)" and fin = "snd (readDir pf dir)"
          and chunk = "[]" and clk = clk and cs = cs and th = th and k = k] Suc.prems
    by simp
qed

lemma walkFiles_items:
  "walkFiles fuel pf root ign sig c x = Some (cs, th, k) \<Longrightarrow> \<forall>i \<in> set (concat cs). walk_item pf root i"
  unfolding walkFiles_def
  using inner_items[where wa = "\<lparr> wa_root = root, wa_ignoredDirectories = ign, wa_signal = sig,
         wa_chunkSize = c, wa_expandSymbolicLink = x \<rparr>"]
  by fastforce

lemma walk_item_rec_origin:
  "walk_item pf (gather_root pf args) j \<Longrightarrow>
   rec_origin pf args (rec_decorate (showSourcePrefix (sourceParams args)) j)"
  by (auto simp: walk_item_def rec_origin_def rec_item_def rec_decorate_def rec_prefix_def file_item_def)

lemma walk_item_path:
  "walk_item pf root j \<Longrightarrow> \<forall>d n. path_join pf d n \<noteq> '''' \<Longrightarrow> path (action j) \<noteq> ''''"
  by (auto simp: walk_item_def file_item_def)

lemma rec_run_items:
  "set (concat (rec_queue (rec_run prm sn chunks))) \<union> set (pendingItems (rec_run prm sn chunks))
   = set (rec_stream prm chunks sn)"
  using rec_run_out[of prm sn chunks] by (metis set_append)

lemma rec_part_prefix:
  "prefix (concat (rec_queue (rec_run prm sn chunks)
             @ (if th = None \<and> pendingItems (rec_run prm sn chunks) \<noteq> []
                then [pendingItems (rec_run prm sn chunks)] else [])))
          (rec_stream prm chunks sn)"
proof (cases "th = None \<and> pendingItems (rec_run prm sn chunks) \<noteq> []")
  case True
  then show ?thesis
    unfolding rec_run_out[of prm sn chunks, symmetric] by simp
next
  case False
  then show ?thesis
    unfolding rec_run_out[of prm sn chunks, symmetric] by auto
qed

lemma distinct_keys_append3:
  assumes "distinct (map f xs)" "distinct (map f ys)" "distinct (map f zs)"
    and "f ` set xs \<subseteq> A" "f ` set ys \<inter> A = {}" "f ` set ys \<subseteq> B" "A \<subseteq> B"
    and "f ` set zs \<inter> B = {}"
  shows "distinct (map f (xs @ ys @ zs))"
proof -
  have 1: "f ` set xs \<inter> f ` set ys = {}" using assms(4,5) by blast
  have 2: "f ` set xs \<inter> f ` set zs = {}" using assms(4,7,8) by blast
  have 3: "f ` set ys \<inter> f ` set zs = {}" using assms(6,8) by blast
  show ?thesis
    using assms(1,2,3) 1 2 3 by (simp add: Int_Un_distrib)
qed


lemma walk_phase_items:
  assumes "(if enableFileRec (sourceParams args)
        then walkFiles fuel pf (gather_root pf args) (ignoredDirectories (sourceParams args))
               sig (chunkSize (sourceParams args)) (expandSymbolicLink (sourceParams args))
        else Some ([], None, 0)) = Some (chunks, th, k)"
  shows "\<forall>j \<in> set (concat chunks). walk_item pf (gather_root pf args) j"
  using assms walkFiles_items by (auto split: if_splits)

section \<open>Order and deduplication of the delivered stream\<close>

text \<open>
  C2.  The batches of a run are, in this order, the batch of the buffer source (at most
  one), the batch of the MRU source (at most one) and the batches of the walk: every
  item of the first part was built by \<^verbatim>\<open>gatherBuffer\<close> for a listed buffer, every item
  of the second by \<^verbatim>\<open>gatherMr\<close> for a path of the MRU list, every item of the third by
  the walk.  So every buffer item comes before every MRU item and every MRU item before
  every item of the walk, whichever of the sources are enabled.
\<close>

theorem priority_order:
  assumes g: "gather fuel dn pf args sig = Some res"
  shows "\<exists>bs ms rs. delivered res = bs @ ms @ rs \<and> length bs \<le> 1 \<and> length ms \<le> 1
           \<and> (\<forall>i \<in> set (concat bs). buffer_origin dn pf args i)
           \<and> (\<forall>i \<in> set (concat ms). mr_origin dn args i)
           \<and> (\<forall>i \<in> set (concat rs). rec_origin pf args i)"
  using g
proof (cases rule: gather_cases)
  case (threw e s)
  then show ?thesis by simp
next
  case (ran bufItems s1 mrItems s2 msgs chunks th k)
  let ?prm = "sourceParams args"
  let ?bs = "if bufItems = [] then [] else [bufItems]"
  let ?ms = "if mrItems = [] then [] else [mrItems]"
  let ?rs = "rec_queue (rec_run ?prm s2 chunks)
         @ (if th = None \<and> pendingItems (rec_run ?prm s2 chunks) \<noteq> []
            then [pendingItems (rec_run ?prm s2 chunks)] else [])"
  have b: "\<forall>i \<in> set (concat ?bs). buffer_origin dn pf args i"
    using buffer_phase_origin[OF ran(1)] by simp
  have m: "\<forall>i \<in> set (concat ?ms). mr_origin dn args i"
    using mr_phase_origin[OF ran(2)] by simp
  have "set (concat ?rs) \<subseteq> set (rec_stream ?prm chunks s2)"
    using rec_part_prefix[of ?prm s2 chunks th] by (rule set_mono_prefix)
  also have "\<dots> \<subseteq> rec_decorate (showSourcePrefix ?prm) ` set (concat chunks)"
    by (rule rec_stream_subset)
  finally have r: "\<forall>i \<in> set (concat ?rs). rec_origin pf args i"
    using walk_phase_items[OF ran(3)] walk_item_rec_origin[of pf args] by blast
  have d: "delivered res = ?bs @ ?ms @ ?rs" by (rule ran(4))
  have l: "length ?bs \<le> 1" "length ?ms \<le> 1" by simp_all
  show ?thesis
    using d l b m r by blast
qed

text \<open>The run over \<^verbatim>\<open>/w/sub\<close> with the default parameters returns and has this shape.\<close>

theorem priority_order_witness:
  "gather 2 ex_denops ex_platform (ex_args ''/w/sub'' params) None \<noteq> None
   \<and> (\<exists>bs ms rs.
         delivered (the (gather 2 ex_denops ex_platform (ex_args ''/w/sub'' params) None)) = bs @ ms @ rs
         \<and> length bs \<le> 1 \<and> length ms \<le> 1
         \<and> (\<forall>i \<in> set (concat bs). buffer_origin ex_denops ex_platform (ex_args ''/w/sub'' params) i)
         \<and> (\<forall>i \<in> set (concat ms). mr_origin ex_denops (ex_args ''/w/sub'' params) i)
         \<and> (\<forall>i \<in> set (concat rs). rec_origin ex_platform (ex_args ''/w/sub'' params) i))"
proof -
  let ?G = "gather 2 ex_denops ex_platform (ex_args ''/w/sub'' params) None"
  have h: "?G \<noteq> None"
    by code_simp
  then have "?G = Some (the ?G)"
    by simp
  from priority_order[OF this] h show ?thesis
    by blast
qed

text \<open>
  C1.  With \<^verbatim>\<open>dedup\<close> on (and a path library whose \<^verbatim>\<open>join\<close> never gives the empty
  string, so that every item of the walk has a path), no two delivered items have the
  same key; and the batches are those of the buffer source, then those of the MRU source,
  whose items have keys that the buffer source has not produced, then those of the walk,
  whose items have keys that neither the buffer source nor the MRU source has produced:
  a key that several sources produce is delivered from the first of them.
\<close>

theorem dedup_uniqueness_and_priority:
  assumes dd: "dedup (sourceParams args)"
    and g: "gather fuel dn pf args sig = Some res"
    and ne: "\<forall>d n. path_join pf d n \<noteq> ''''"
  shows "distinct (map DedupKey (concat (delivered res)))
       \<and> (\<exists>bs ms rs. delivered res = bs @ ms @ rs
            \<and> (\<forall>i \<in> set (concat bs). buffer_origin dn pf args i)
            \<and> (\<forall>i \<in> set (concat ms). mr_origin dn args i \<and> DedupKey i \<notin> buffer_keys dn args)
            \<and> (\<forall>i \<in> set (concat rs). rec_origin pf args i
                  \<and> DedupKey i \<notin> buffer_keys dn args \<and> DedupKey i \<notin> mr_keys dn args))"
  using g
proof (cases rule: gather_cases)
  case (threw e s)
  then show ?thesis by simp
next
  case (ran bufItems s1 mrItems s2 msgs chunks th k)
  let ?prm = "sourceParams args"
  let ?bs = "if bufItems = [] then [] else [bufItems]"
  let ?ms = "if mrItems = [] then [] else [mrItems]"
  let ?rs = "rec_queue (rec_run ?prm s2 chunks)
         @ (if th = None \<and> pendingItems (rec_run ?prm s2 chunks) \<noteq> []
            then [pendingItems (rec_run ?prm s2 chunks)] else [])"
  let ?S = "rec_stream ?prm chunks s2"
  note B = buffer_phase_dedup[OF dd ran(1)]
  note M = mr_phase_dedup[OF dd ran(2)]
  have paths: "\<forall>j \<in> set (concat chunks). path (action j) \<noteq> ''''"
    using walk_phase_items[OF ran(3)] walk_item_path[OF _ ne] by blast
  note S = rec_stream_dedup[OF dd paths, of s2]
  have pre: "prefix (concat ?rs) ?S"
    by (rule rec_part_prefix)
  then obtain zs where zs: "?S = concat ?rs @ zs"
    by (auto simp: prefix_def)
  have dr: "distinct (map DedupKey (concat ?rs))"
    using S zs by (metis distinct_append map_append)
  have sr: "set (concat ?rs) \<subseteq> set ?S"
    using pre by (rule set_mono_prefix)
  have kr: "DedupKey ` set (concat ?rs) \<inter> s2 = {}"
    using S sr by blast
  have cb: "concat ?bs = bufItems" and cm: "concat ?ms = mrItems" by simp_all
  have d: "delivered res = ?bs @ ?ms @ ?rs" by (rule ran(4))
  have B1: "distinct (map DedupKey bufItems)" and B2: "DedupKey ` set bufItems \<subseteq> s1"
    using B by blast+
  have M1: "distinct (map DedupKey mrItems)" and M2: "DedupKey ` set mrItems \<inter> s1 = {}"
    and M3: "DedupKey ` set mrItems \<subseteq> s2" and s12: "s1 \<subseteq> s2"
    using M by blast+
  have "distinct (map DedupKey (bufItems @ mrItems @ concat ?rs))"
    by (rule distinct_keys_append3[where A = s1 and B = s2, OF B1 M1 dr B2 M2 M3 s12 kr])
  moreover have "concat (delivered res) = bufItems @ mrItems @ concat ?rs"
    unfolding d concat_append cb cm ..
  ultimately have u: "distinct (map DedupKey (concat (delivered res)))"
    by (simp only:)
  have b: "\<forall>i \<in> set (concat ?bs). buffer_origin dn pf args i"
    using buffer_phase_origin[OF ran(1)] by simp
  have m: "\<forall>i \<in> set (concat ?ms). mr_origin dn args i \<and> DedupKey i \<notin> buffer_keys dn args"
    using mr_phase_origin[OF ran(2)] B M by (auto simp: disjoint_iff)
  have "set (concat ?rs) \<subseteq> rec_decorate (showSourcePrefix ?prm) ` set (concat chunks)"
    using sr rec_stream_subset by blast
  then have ro: "\<forall>i \<in> set (concat ?rs). rec_origin pf args i"
    using walk_phase_items[OF ran(3)] walk_item_rec_origin[of pf args] by blast
  have r: "\<forall>i \<in> set (concat ?rs). rec_origin pf args i
                  \<and> DedupKey i \<notin> buffer_keys dn args \<and> DedupKey i \<notin> mr_keys dn args"
    using ro kr B M by (auto simp: disjoint_iff)
  show ?thesis
    using u d b m r by blast
qed

text \<open>
  In the run over \<^verbatim>\<open>/w/sub\<close>, \<^verbatim>\<open>/w/a.txt\<close> is open and in the MRU list and
  \<^verbatim>\<open>/w/sub/c.txt\<close> is in the MRU list and in the walk: each is delivered once, from
  the earlier source, and the walk has nothing left to deliver.
\<close>

theorem dedup_uniqueness_and_priority_witness:
  "dedup (sourceParams (ex_args ''/w/sub'' params))
   \<and> gather 2 ex_denops ex_platform (ex_args ''/w/sub'' params) None \<noteq> None
   \<and> (\<forall>d n. path_join ex_platform d n \<noteq> '''')
   \<and> distinct (map DedupKey
        (concat (delivered (the (gather 2 ex_denops ex_platform (ex_args ''/w/sub'' params) None)))))
   \<and> map (map (\<lambda>i. path (action i)))
        (delivered (the (gather 2 ex_denops ex_platform (ex_args ''/w/sub'' params) None)))
       = [[''/w/n.txt'', ''/w/a.txt''], [''/w/sub/c.txt'']]"
proof -
  let ?A = "ex_args ''/w/sub'' params"
  let ?G = "gather 2 ex_denops ex_platform ?A None"
  have h1: "dedup (sourceParams ?A)"
    by (simp add: ex_args_def params_def)
  have h2: "?G \<noteq> None"
    by code_simp
  then have h2': "?G = Some (the ?G)"
    by simp
  have h3: "\<forall>d n. path_join ex_platform d n \<noteq> ''''"
    by (simp add: ex_platform_def)
  have c: "map (map (\<lambda>i. path (action i))) (delivered (the ?G))
             = [[''/w/n.txt'', ''/w/a.txt''], [''/w/sub/c.txt'']]"
    by code_simp
  from dedup_uniqueness_and_priority[OF h1 h2' h3] h1 h2 h3 c show ?thesis
    by blast
qed









end
